theory Spec2Isabelle
  imports Complex_Main "HOL-Library.Word"
begin

unbundle bit_operations_syntax

section \<open>JavaScript values used by the emulator\<close>

text \<open>
  The emulator (\<^verbatim>\<open>src/main.js\<close>) computes with JavaScript numbers that are always
  integers on the paths modelled here (addresses, bytes, key masks), so they are \<open>int\<close>.
  The bitwise operators of JavaScript first convert their operands to signed 32-bit
  integers (\<^verbatim>\<open>ToInt32\<close>); that conversion is written out.
\<close>

type_synonym byte = "8 word"

text \<open>The contents of an \<^verbatim>\<open>ArrayBuffer\<close>: a fixed-length sequence of bytes.\<close>

type_synonym buffer = "byte list"

text \<open>
  The three exceptions of the modelled code:
  \<^item> \<open>OutOfBounds\<close>: \<^verbatim>\<open>throw new Error('Address out of bounds')\<close>;
  \<^item> \<open>ImageTooLarge\<close>: \<^verbatim>\<open>throw new Error(`Image is too large to fit in Memory ...`)\<close>;
  \<^item> \<open>RangeError\<close>: thrown by a \<^verbatim>\<open>DataView\<close> accessor whose offset lies outside the view.
\<close>

datatype error = OutOfBounds | ImageTooLarge | RangeError

definition toInt32 :: "int \<Rightarrow> int" where
  "toInt32 x = (let m = x mod 2 ^ 32 in if m \<ge> 2 ^ 31 then m - 2 ^ 32 else m)"

text \<open>\<^verbatim>\<open>x >> n\<close>: the sign-propagating right shift of the 32-bit value of \<open>x\<close>.\<close>

definition js_sar :: "int \<Rightarrow> nat \<Rightarrow> int" where
  "js_sar x n = toInt32 x div 2 ^ (n mod 32)"

text \<open>\<^verbatim>\<open>x << n\<close>: the left shift, truncated to a signed 32-bit value.\<close>

definition js_shl :: "int \<Rightarrow> nat \<Rightarrow> int" where
  "js_shl x n = toInt32 (toInt32 x * 2 ^ (n mod 32))"

text \<open>\<^verbatim>\<open>x | y\<close>, \<^verbatim>\<open>x & y\<close> and \<^verbatim>\<open>~x\<close> on the 32-bit values of the operands.\<close>

definition js_or :: "int \<Rightarrow> int \<Rightarrow> int" where
  "js_or x y = toInt32 x OR toInt32 y"

definition js_and :: "int \<Rightarrow> int \<Rightarrow> int" where
  "js_and x y = toInt32 x AND toInt32 y"

definition js_not :: "int \<Rightarrow> int" where
  "js_not x = NOT (toInt32 x)"

section \<open>DataView accessors\<close>

text \<open>
  A \<^verbatim>\<open>DataView\<close> over a whole buffer. An accessor of \<open>n\<close> bytes at offset \<open>off\<close>
  throws \<^verbatim>\<open>RangeError\<close> unless \<open>0 \<le> off\<close> and \<open>off + n\<close> is within the buffer.
  Multi-byte accessors are big-endian (no \<^verbatim>\<open>littleEndian\<close> argument is ever passed).
  A stored value is first reduced modulo \<open>2 ^ 8\<close>, \<open>2 ^ 16\<close> or \<open>2 ^ 32\<close>.
\<close>

definition in_view :: "buffer \<Rightarrow> int \<Rightarrow> nat \<Rightarrow> bool" where
  "in_view buf off n \<longleftrightarrow> 0 \<le> off \<and> nat off + n \<le> length buf"

definition getUint8 :: "buffer \<Rightarrow> int \<Rightarrow> error + int" where
  "getUint8 buf off =
     (if in_view buf off 1 then Inr (uint (buf ! nat off)) else Inl RangeError)"

definition setUint8 :: "buffer \<Rightarrow> int \<Rightarrow> int \<Rightarrow> error + buffer" where
  "setUint8 buf off v =
     (if in_view buf off 1 then Inr (buf[nat off := word_of_int v]) else Inl RangeError)"

definition getUint32 :: "buffer \<Rightarrow> int \<Rightarrow> error + int" where
  "getUint32 buf off =
     (if in_view buf off 4
      then Inr (uint (buf ! nat off) * 2 ^ 24 + uint (buf ! (nat off + 1)) * 2 ^ 16
                + uint (buf ! (nat off + 2)) * 2 ^ 8 + uint (buf ! (nat off + 3)))
      else Inl RangeError)"

definition setUint16 :: "buffer \<Rightarrow> int \<Rightarrow> int \<Rightarrow> error + buffer" where
  "setUint16 buf off v =
     (if in_view buf off 2
      then Inr (buf[nat off := word_of_int (v mod 2 ^ 16 div 2 ^ 8),
                    nat off + 1 := word_of_int (v mod 2 ^ 8)])
      else Inl RangeError)"

definition setUint32 :: "buffer \<Rightarrow> int \<Rightarrow> int \<Rightarrow> error + buffer" where
  "setUint32 buf off v =
     (if in_view buf off 4
      then Inr (buf[nat off := word_of_int (v mod 2 ^ 32 div 2 ^ 24),
                    nat off + 1 := word_of_int (v mod 2 ^ 24 div 2 ^ 16),
                    nat off + 2 := word_of_int (v mod 2 ^ 16 div 2 ^ 8),
                    nat off + 3 := word_of_int (v mod 2 ^ 8)])
      else Inl RangeError)"

text \<open>
  \<^verbatim>\<open>buffer.transfer(n)\<close>: a new buffer of exactly \<open>n\<close> bytes holding the old contents,
  cut at \<open>n\<close> bytes or padded with zero bytes.
\<close>

definition transfer :: "nat \<Rightarrow> buffer \<Rightarrow> buffer" where
  "transfer n buf = take n buf @ replicate (n - length buf) 0"

section \<open>The BytePusher object\<close>

text \<open>
  The object's only field is \<^verbatim>\<open>mem\<close>, a \<^verbatim>\<open>DataView\<close> over a buffer of
  \<^verbatim>\<open>0x1000008\<close> bytes; a method takes the memory and returns its result or the
  exception it throws. A method that stores returns the new memory.
\<close>

definition mem_size :: nat where
  "mem_size = 0x1000008"

definition initial_mem :: buffer where
  "initial_mem = replicate mem_size 0"

definition setMemory :: "buffer \<Rightarrow> error + buffer" where
  "setMemory buf =
     (if length buf > 0x1000008 then Inl ImageTooLarge
      else Inr (transfer 0x1000008 buf))"

definition readUint24 :: "buffer \<Rightarrow> int \<Rightarrow> error + int" where
  "readUint24 mem addr =
     (if addr > 0xFFFFFF then Inl OutOfBounds
      else case getUint32 mem addr of
             Inl e \<Rightarrow> Inl e
           | Inr w \<Rightarrow> Inr (js_sar w 8))"

definition writeUint16 :: "buffer \<Rightarrow> int \<Rightarrow> int \<Rightarrow> error + buffer" where
  "writeUint16 mem src v =
     (if src > 0xFFFFFF then Inl OutOfBounds else setUint16 mem src v)"

definition readByte :: "buffer \<Rightarrow> int \<Rightarrow> error + int" where
  "readByte mem addr =
     (if addr > 0xFFFFFF then Inl OutOfBounds else getUint8 mem addr)"

text \<open>
  \<^verbatim>\<open>writeByte(src, dest)\<close> is the byte copy of the machine's single instruction: both
  arguments are addresses of 24-bit addresses. The arguments of the call to
  \<^verbatim>\<open>setUint8\<close> are evaluated from left to right: the destination is resolved first,
  then the source, then the source byte is read, then the store is made.
\<close>

definition writeByte :: "buffer \<Rightarrow> int \<Rightarrow> int \<Rightarrow> error + buffer" where
  "writeByte mem src dest =
     (if src > 0xFFFFFF \<or> dest > 0xFFFFFF then Inl OutOfBounds
      else case readUint24 mem dest of
             Inl e \<Rightarrow> Inl e
           | Inr d \<Rightarrow>
               (case readUint24 mem src of
                  Inl e \<Rightarrow> Inl e
                | Inr s \<Rightarrow>
                    (case getUint8 mem s of
                       Inl e \<Rightarrow> Inl e
                     | Inr b \<Rightarrow> setUint8 mem d b)))"

text \<open>
  \<^verbatim>\<open>cpuLoop\<close>: the burst of one frame. \<open>cpuLoop_for\<close> is the \<^verbatim>\<open>for\<close> statement with
  its counter \<open>i\<close>. A burst that throws leaves the memory as the stores made before the
  exception left it, so the exception is returned together with that memory.
\<close>

function cpuLoop_for :: "int \<Rightarrow> int \<Rightarrow> buffer \<Rightarrow> (error \<times> buffer) + buffer" where
  "cpuLoop_for i pc mem =
     (if i < 65536
      then case writeByte mem pc (pc + 3) of
             Inl e \<Rightarrow> Inl (e, mem)
           | Inr mem' \<Rightarrow>
               (case readUint24 mem' (pc + 6) of
                  Inl e \<Rightarrow> Inl (e, mem')
                | Inr pc' \<Rightarrow> cpuLoop_for (i + 1) pc' mem')
      else Inr mem)"
  by pat_completeness auto
termination
  by (relation "measure (\<lambda>(i, pc, mem). nat (65536 - i))") auto

declare cpuLoop_for.simps [simp del]

definition cpuLoop :: "buffer \<Rightarrow> (error \<times> buffer) + buffer" where
  "cpuLoop mem =
     (case readUint24 mem 2 of
        Inl e \<Rightarrow> Inl (e, mem)
      | Inr pc \<Rightarrow> cpuLoop_for 0 pc mem)"

subsection \<open>Sequences of calls\<close>

text \<open>
  The methods of the object that assign or store to \<^verbatim>\<open>mem\<close>, as calls a client can
  make in any order. \<open>after_call\<close> is the memory a call leaves behind, whether it
  returned or threw; \<open>after_calls\<close> runs a sequence of calls on the memory the object is
  constructed with.
\<close>

datatype call =
    SetMemory buffer
  | WriteUint16 int int
  | WriteByte int int
  | CpuLoop

fun after_call :: "buffer \<Rightarrow> call \<Rightarrow> buffer" where
  "after_call mem (SetMemory buf) = (case setMemory buf of Inl e \<Rightarrow> mem | Inr mem' \<Rightarrow> mem')"
| "after_call mem (WriteUint16 src v) =
     (case writeUint16 mem src v of Inl e \<Rightarrow> mem | Inr mem' \<Rightarrow> mem')"
| "after_call mem (WriteByte src dest) =
     (case writeByte mem src dest of Inl e \<Rightarrow> mem | Inr mem' \<Rightarrow> mem')"
| "after_call mem CpuLoop = (case cpuLoop mem of Inl (e, mem') \<Rightarrow> mem' | Inr mem' \<Rightarrow> mem')"

definition after_calls :: "call list \<Rightarrow> buffer" where
  "after_calls cs = foldl after_call initial_mem cs"

subsection \<open>The instruction engine and the byte copy in the words of the specification\<close>

text \<open>
  Section 4.1 of the specification has a single-byte store \<open>writeByte(addr, byte)\<close> that
  fails with \<open>OutOfBounds\<close> if \<open>addr > 0xFFFFFF\<close>; the source has no method of that shape
  (its \<^verbatim>\<open>writeByte(src, dest)\<close> is the specification's \<open>copyByte\<close>). These definitions
  follow the specification's sentences, to be compared with the source's methods.
\<close>

definition spec_writeByte :: "buffer \<Rightarrow> int \<Rightarrow> int \<Rightarrow> error + buffer" where
  "spec_writeByte mem addr b =
     (if addr > 0xFFFFFF then Inl OutOfBounds else setUint8 mem addr b)"

text \<open>
  \<open>writeByte(readUint24(destAddr), readByte(readUint24(srcAddr)))\<close>, reading the byte
  \<open>b\<close> first and then storing it.
\<close>

definition spec_copyByte :: "buffer \<Rightarrow> int \<Rightarrow> int \<Rightarrow> error + buffer" where
  "spec_copyByte mem srcAddr destAddr =
     (case readUint24 mem srcAddr of
        Inl e \<Rightarrow> Inl e
      | Inr s \<Rightarrow>
          (case readByte mem s of
             Inl e \<Rightarrow> Inl e
           | Inr b \<Rightarrow>
               (case readUint24 mem destAddr of
                  Inl e \<Rightarrow> Inl e
                | Inr d \<Rightarrow> spec_writeByte mem d b)))"

text \<open>
  One iteration of section 4.2: first \<open>copyByte(pc, pc + 3)\<close>, then
  \<open>pc = readUint24(pc + 6)\<close>; \<open>spec_cycles n\<close> is \<open>n\<close> iterations in a row, stopped by the
  first exception; \<open>spec_engine\<close> starts from \<open>pc = readUint24(0x000002)\<close>, performs
  65536 iterations and drops the final \<open>pc\<close>.
\<close>

definition spec_cycle :: "int \<times> buffer \<Rightarrow> (error \<times> buffer) + (int \<times> buffer)" where
  "spec_cycle s =
     (case s of (pc, mem) \<Rightarrow>
        (case writeByte mem pc (pc + 3) of
           Inl e \<Rightarrow> Inl (e, mem)
         | Inr mem' \<Rightarrow>
             (case readUint24 mem' (pc + 6) of
                Inl e \<Rightarrow> Inl (e, mem')
              | Inr pc' \<Rightarrow> Inr (pc', mem'))))"

primrec spec_cycles :: "nat \<Rightarrow> int \<times> buffer \<Rightarrow> (error \<times> buffer) + (int \<times> buffer)" where
  "spec_cycles 0 s = Inr s"
| "spec_cycles (Suc n) s =
     (case spec_cycle s of Inl x \<Rightarrow> Inl x | Inr s' \<Rightarrow> spec_cycles n s')"

definition spec_engine :: "buffer \<Rightarrow> (error \<times> buffer) + buffer" where
  "spec_engine mem =
     (case readUint24 mem 0x000002 of
        Inl e \<Rightarrow> Inl (e, mem)
      | Inr pc \<Rightarrow>
          (case spec_cycles 65536 (pc, mem) of
             Inl x \<Rightarrow> Inl x
           | Inr (pc', mem') \<Rightarrow> Inr mem'))"

section \<open>The Keyboard object\<close>

text \<open>
  \<^verbatim>\<open>keymap\<close> is an object literal: its own properties in source order. The two
  listeners look the event's key up and change \<^verbatim>\<open>keyState\<close> only when the lookup is not
  \<^verbatim>\<open>undefined\<close>. (A key string that names a member of \<^verbatim>\<open>Object.prototype\<close> finds a
  non-number, which the bitwise operators read as 0: such an event leaves the bits as
  they are, like an unmapped key, and is modelled as one.)
\<close>

definition keymap_entries :: "(string \<times> int) list" where
  "keymap_entries =
     [(''1'', 0x2), (''2'', 0x4), (''3'', 0x8), (''4'', 0x10),
      (''5'', 0x20), (''6'', 0x40), (''7'', 0x80), (''8'', 0x100),
      (''9'', 0x200), (''a'', 0x400), (''b'', 0x800), (''c'', 0x1000),
      (''d'', 0x2000), (''e'', 0x4000), (''f'', 0x8000)]"

definition keymap :: "string \<Rightarrow> int option" where
  "keymap = map_of keymap_entries"

datatype key_event = KeyDown string | KeyUp string

fun key_listener :: "int \<Rightarrow> key_event \<Rightarrow> int" where
  "key_listener keyState (KeyDown k) =
     (case keymap k of None \<Rightarrow> keyState | Some key \<Rightarrow> js_or keyState key)"
| "key_listener keyState (KeyUp k) =
     (case keymap k of None \<Rightarrow> keyState | Some key \<Rightarrow> js_and keyState (js_not key))"

text \<open>The key state after a sequence of events, from the initial \<^verbatim>\<open>keyState: 0\<close>.\<close>

definition keyState_after :: "key_event list \<Rightarrow> int" where
  "keyState_after evs = foldl key_listener 0 evs"

section \<open>The Screen palette\<close>

text \<open>
  \<^verbatim>\<open>palette\<close> is a \<^verbatim>\<open>Uint32Array(256)\<close>: a buffer of 1024 zero bytes when it is created.
  \<^verbatim>\<open>initPalette\<close> writes it through a \<^verbatim>\<open>DataView\<close>. Each \<^verbatim>\<open>for\<close> statement is one
  recursive function over its loop variable; the state they thread is the counter \<open>i\<close>
  and the buffer.
\<close>

definition new_palette :: buffer where
  "new_palette = replicate (256 * 4) 0"

function palette_b :: "int \<Rightarrow> int \<Rightarrow> int \<Rightarrow> int \<times> buffer \<Rightarrow> error + int \<times> buffer" where
  "palette_b r g b (i, view) =
     (if b \<le> 0xff
      then case setUint32 view (i * 4)
                  (js_or (js_or (js_or (js_shl r 24) (js_shl g 16)) (js_shl b 8)) 0xff) of
             Inl e \<Rightarrow> Inl e
           | Inr view' \<Rightarrow> palette_b r g (b + 0x33) (i + 1, view')
      else Inr (i, view))"
  by pat_completeness auto
termination
  by (relation "measure (\<lambda>(r, g, b, s). nat (0x100 - b))") auto

function palette_g :: "int \<Rightarrow> int \<Rightarrow> int \<times> buffer \<Rightarrow> error + int \<times> buffer" where
  "palette_g r g s =
     (if g \<le> 0xff
      then case palette_b r g 0 s of
             Inl e \<Rightarrow> Inl e
           | Inr s' \<Rightarrow> palette_g r (g + 0x33) s'
      else Inr s)"
  by pat_completeness auto
termination
  by (relation "measure (\<lambda>(r, g, s). nat (0x100 - g))") auto

function palette_r :: "int \<Rightarrow> int \<times> buffer \<Rightarrow> error + int \<times> buffer" where
  "palette_r r s =
     (if r \<le> 0xff
      then case palette_g r 0 s of
             Inl e \<Rightarrow> Inl e
           | Inr s' \<Rightarrow> palette_r (r + 0x33) s'
      else Inr s)"
  by pat_completeness auto
termination
  by (relation "measure (\<lambda>(r, s). nat (0x100 - r))") auto

text \<open>
  The second loop, \<^verbatim>\<open>for (let i = 216; i < 256; i++) { view.setUint32(i++ * 4, 0x000000ff) }\<close>:
  the body increments \<open>i\<close> after using it and the loop header increments it again.
\<close>

function palette_black :: "int \<Rightarrow> buffer \<Rightarrow> error + buffer" where
  "palette_black i view =
     (if i < 256
      then case setUint32 view (i * 4) 0x000000ff of
             Inl e \<Rightarrow> Inl e
           | Inr view' \<Rightarrow> palette_black ((i + 1) + 1) view'
      else Inr view)"
  by pat_completeness auto
termination
  by (relation "measure (\<lambda>(i, view). nat (256 - i))") auto

declare palette_b.simps [simp del] palette_g.simps [simp del] palette_r.simps [simp del]
  palette_black.simps [simp del]

definition initPalette :: "buffer \<Rightarrow> error + buffer" where
  "initPalette palette =
     (case palette_r 0 (0, palette) of
        Inl e \<Rightarrow> Inl e
      | Inr (i, view) \<Rightarrow> palette_black 216 view)"

text \<open>
  Entry \<open>i\<close> of the palette as its four bytes in buffer order. \<^verbatim>\<open>updateBuffer\<close> copies
  an entry as one 32-bit element into the canvas's \<^verbatim>\<open>ImageData\<close>, whose bytes are
  red, green, blue and alpha in this order.
\<close>

definition rgba :: "buffer \<Rightarrow> nat \<Rightarrow> byte list" where
  "rgba palette i = [palette ! (4 * i), palette ! (4 * i + 1), palette ! (4 * i + 2),
                     palette ! (4 * i + 3)]"

text \<open>
  The colour the specification gives entry \<open>i < 216\<close>: the web-safe cube, red major, then
  green, then blue, with full alpha.
\<close>

definition web_safe :: "nat \<Rightarrow> byte list" where
  "web_safe i = [of_nat (0x33 * (i div 36)), of_nat (0x33 * (i div 6 mod 6)),
                 of_nat (0x33 * (i mod 6)), 0xff]"

section \<open>The frame scheduler\<close>

text \<open>
  \<^verbatim>\<open>loop(time)\<close> is the \<^verbatim>\<open>requestAnimationFrame\<close> callback. Its numbers are IEEE 754
  doubles. The model computes with reals and passes the result of every rounded
  operation (\<^verbatim>\<open>/\<close> and \<^verbatim>\<open>-\<close>) through a rounding function \<open>rnd\<close>, a parameter:
  the identity gives exact arithmetic, and round-to-nearest of doubles is one of the
  functions that \<open>rounds_to_nearest\<close> admits (relative error at most \<open>2\<^sup>-\<^sup>5\<^sup>3\<close>; the
  timestamps are far from overflow and underflow). The remainder \<^verbatim>\<open>%\<close> of two doubles
  is exact: it has the sign of the dividend and is computed from the truncated quotient.
\<close>

definition rounds_to_nearest :: "(real \<Rightarrow> real) \<Rightarrow> bool" where
  "rounds_to_nearest rnd \<longleftrightarrow> (\<forall>x. \<bar>rnd x - x\<bar> \<le> \<bar>x\<bar> / 2 ^ 53)"

text \<open>
  Round-to-nearest of doubles on the numbers of the specification's example (timestamps
  0, 8, 16, 24, 33): the quotient \<open>1000 / 60\<close> is not a double and is rounded to
  \<open>4691249611844267 / 2\<^sup>4\<^sup>8\<close> (printed \<^verbatim>\<open>16.666666666666668\<close>); every difference that
  the example computes is a double already and is left as it is.
\<close>

definition double_rnd :: "real \<Rightarrow> real" where
  "double_rnd x = (if x = 1000 / 60 then 4691249611844267 / 281474976710656 else x)"

definition js_rem :: "real \<Rightarrow> real \<Rightarrow> real" where
  "js_rem a b = a - b * of_int (if 0 \<le> a / b then \<lfloor>a / b\<rfloor> else \<lceil>a / b\<rceil>)"

definition fps :: real where
  "fps = 60"

definition frameDuration :: "(real \<Rightarrow> real) \<Rightarrow> real" where
  "frameDuration rnd = rnd (1000 / fps)"

text \<open>
  One callback: the new \<^verbatim>\<open>lastFrameTime\<close>, and whether the body of the \<^verbatim>\<open>if\<close>, the
  frame, is executed. The frame is \<^verbatim>\<open>BytePusher.writeUint16(0, Keyboard.keyState)\<close>,
  \<^verbatim>\<open>BytePusher.cpuLoop()\<close>, \<^verbatim>\<open>Screen.updateBuffer(...)\<close>, \<^verbatim>\<open>Screen.draw()\<close> and the
  comment \<^verbatim>\<open>// TODO: update audio device\<close>. Nothing in the source reads the audio
  address at \<open>0x000006\<close> or converts a sample: there is no audio decoder to model
  (claim C8 describes one that runs once per frame).
\<close>

definition loop :: "(real \<Rightarrow> real) \<Rightarrow> real \<Rightarrow> real \<Rightarrow> real \<times> bool" where
  "loop rnd lastFrameTime time =
     (let delta = rnd (time - lastFrameTime) in
      if delta \<ge> frameDuration rnd
      then (rnd (time - js_rem delta (frameDuration rnd)), True)
      else (lastFrameTime, False))"

text \<open>
  A sequence of callbacks: the final \<^verbatim>\<open>lastFrameTime\<close> and, for each timestamp in turn,
  whether a frame was executed.
\<close>

fun callbacks :: "(real \<Rightarrow> real) \<Rightarrow> real \<Rightarrow> real list \<Rightarrow> real \<times> bool list" where
  "callbacks rnd lastFrameTime [] = (lastFrameTime, [])"
| "callbacks rnd lastFrameTime (time # rest) =
     (case loop rnd lastFrameTime time of
        (lastFrameTime', frame) \<Rightarrow>
          (case callbacks rnd lastFrameTime' rest of
             (lastFrameTime'', frames) \<Rightarrow> (lastFrameTime'', frame # frames)))"

section \<open>Properties of the memory accessors\<close>

lemma length_transfer: "length (transfer n buf) = n"
  by (simp add: transfer_def)

lemma nth_transfer:
  "i < n \<Longrightarrow> transfer n buf ! i = (if i < length buf then buf ! i else 0)"
  by (auto simp: transfer_def nth_append)

lemma initial_mem_read: "0 \<le> a \<Longrightarrow> a \<le> 0xFFFFFF \<Longrightarrow> readUint24 initial_mem a = Inr 0"
  by (simp add: readUint24_def getUint32_def in_view_def initial_mem_def mem_size_def
      js_sar_def toInt32_def)

lemma uint_byte_bounds: "0 \<le> uint (b :: byte) \<and> uint b < 256"
  using uint_bounded[of b] by simp

lemma toInt32_be32:
  fixes a b c d :: int
  assumes "0 \<le> a" "a < 256" "0 \<le> b" "b < 256" "0 \<le> c" "c < 256" "0 \<le> d" "d < 256"
  shows "js_sar (a * 2 ^ 24 + b * 2 ^ 16 + c * 2 ^ 8 + d) 8 =
         (if a < 128 then a * 65536 + b * 256 + c else a * 65536 + b * 256 + c - 2 ^ 24)"
proof -
  let ?w = "a * 2 ^ 24 + b * 2 ^ 16 + c * 2 ^ 8 + d"
  have w: "0 \<le> ?w" "?w < 2 ^ 32" using assms by simp_all
  then have m: "?w mod 2 ^ 32 = ?w" by simp
  have hi: "?w \<ge> 2 ^ 31 \<longleftrightarrow> a \<ge> 128" using assms by auto
  have d1: "?w div 256 = a * 65536 + b * 256 + c" using assms by simp
  have d2: "(?w - 2 ^ 32) div 256 = a * 65536 + b * 256 + c - 2 ^ 24" using assms by simp
  show ?thesis
    unfolding js_sar_def toInt32_def Let_def m using hi d1 d2 by simp
qed

lemma readUint24_value:
  assumes "0 \<le> addr" "addr \<le> 0xFFFFFF" "length mem = mem_size"
  shows "readUint24 mem addr =
         Inr (uint (mem ! nat addr) * 65536 + uint (mem ! (nat addr + 1)) * 256
              + uint (mem ! (nat addr + 2))
              - (if mem ! nat addr < 0x80 then 0 else 2 ^ 24))"
proof -
  have v: "in_view mem addr 4" using assms by (simp add: in_view_def mem_size_def)
  have lt: "mem ! nat addr < 0x80 \<longleftrightarrow> uint (mem ! nat addr) < 128"
    by (simp add: word_less_def)
  show ?thesis
    using assms v lt
      toInt32_be32[of "uint (mem ! nat addr)" "uint (mem ! (nat addr + 1))"
        "uint (mem ! (nat addr + 2))" "uint (mem ! (nat addr + 3))"]
      uint_byte_bounds[of "mem ! nat addr"] uint_byte_bounds[of "mem ! (nat addr + 1)"]
      uint_byte_bounds[of "mem ! (nat addr + 2)"] uint_byte_bounds[of "mem ! (nat addr + 3)"]
    by (simp add: readUint24_def getUint32_def)
qed

lemma readUint24_range:
  assumes "readUint24 mem addr = Inr s"
  shows "- (2 ^ 23) \<le> s \<and> s < 2 ^ 23"
proof -
  from assms obtain w where w: "getUint32 mem addr = Inr w" and s: "s = js_sar w 8"
    by (auto simp: readUint24_def split: if_splits sum.splits)
  have "- (2 ^ 31) \<le> toInt32 w \<and> toInt32 w < 2 ^ 31"
    unfolding toInt32_def Let_def
    using pos_mod_bound[of "2 ^ 32" w] pos_mod_sign[of "2 ^ 32" w] by auto
  then show ?thesis unfolding s js_sar_def by simp arith
qed

lemma readUint24_error:
  "addr \<le> 0xFFFFFF \<Longrightarrow> readUint24 mem addr = Inl e \<Longrightarrow> e = RangeError"
  by (auto simp: readUint24_def getUint32_def split: if_splits sum.splits)

lemma getUint8_error: "getUint8 mem a = Inl e \<Longrightarrow> e = RangeError"
  by (auto simp: getUint8_def split: if_splits)

lemma setUint8_error: "setUint8 mem a b = Inl e \<Longrightarrow> e = RangeError"
  by (auto simp: setUint8_def split: if_splits)

text \<open>
  Claim C1. The claim: for every \<open>addr\<close> with \<open>0 \<le> addr \<le> 0xFFFFFF\<close>, \<open>readUint24(addr)\<close>
  returns \<open>memory[addr] * 65536 + memory[addr + 1] * 256 + memory[addr + 2]\<close>, a value in
  \<open>[0, 0xFFFFFF]\<close>. The source shifts with the sign-propagating \<^verbatim>\<open>>>\<close>: after loading the
  one-byte image \<open>0x80\<close>, \<open>readUint24(0)\<close> returns \<open>-8388608\<close>, not \<open>0x800000 = 8388608\<close>.
\<close>

theorem readUint24_high_bit:
  "(case setMemory [0x80] of Inl e \<Rightarrow> Inl e | Inr mem \<Rightarrow> readUint24 mem 0) = Inr (- 8388608)"
  by (simp add: setMemory_def readUint24_def getUint32_def in_view_def length_transfer
      nth_transfer js_sar_def toInt32_def)

text \<open>
  What \<^verbatim>\<open>readUint24\<close> returns for an address in \<open>[0, 0xFFFFFF]\<close> of the
  \<open>0x1000008\<close>-byte memory: the three bytes at \<open>addr\<close>, \<open>addr + 1\<close>, \<open>addr + 2\<close>
  big-endian, read as a signed 24-bit number, so \<open>2\<^sup>2\<^sup>4\<close> less than the unsigned value
  when the first byte is \<open>0x80\<close> or more. The fourth byte of the window is discarded.
\<close>

theorem readUint24_signed:
  assumes "0 \<le> addr" "addr \<le> 0xFFFFFF" "length mem = 0x1000008"
  shows "readUint24 mem addr =
         Inr (uint (mem ! nat addr) * 65536 + uint (mem ! (nat addr + 1)) * 256
              + uint (mem ! (nat addr + 2))
              - (if mem ! nat addr < 0x80 then 0 else 2 ^ 24))"
  using assms by (intro readUint24_value) (simp_all add: mem_size_def)

theorem readUint24_signed_witness:
  "readUint24 (transfer 0x1000008 [0x12, 0x34, 0x56, 0x78]) 0 = Inr 0x123456 \<and>
   readUint24 (transfer 0x1000008 [0x12, 0x34, 0x56, 0x78]) 1 = Inr 0x345678 \<and>
   readUint24 (transfer 0x1000008 [0xff, 0xff, 0xff]) 0 = Inr (- 1)"
  using readUint24_signed[of 0 "transfer 0x1000008 [0x12, 0x34, 0x56, 0x78]"]
    readUint24_signed[of 1 "transfer 0x1000008 [0x12, 0x34, 0x56, 0x78]"]
    readUint24_signed[of 0 "transfer 0x1000008 [0xff, 0xff, 0xff]"]
  by (simp add: length_transfer nth_transfer)

text \<open>
  Claim C4. The claim: when both raw addresses are at most \<open>0xFFFFFF\<close>, the addresses
  resolved through \<open>readUint24\<close> are in range and the one-byte read and write never
  fault. After loading the one-byte image \<open>0x80\<close>, the copy \<^verbatim>\<open>writeByte(0, 3)\<close> resolves
  its source to \<open>-8388608\<close> and the read of the source byte throws \<^verbatim>\<open>RangeError\<close>.
\<close>

theorem writeByte_faults_in_range:
  "(case setMemory [0x80] of Inl e \<Rightarrow> Inl e | Inr mem \<Rightarrow> writeByte mem 0 3) = Inl RangeError"
  by (simp add: setMemory_def writeByte_def readUint24_def getUint32_def getUint8_def in_view_def
      length_transfer nth_transfer js_sar_def toInt32_def)

text \<open>
  The "Address out of bounds" error itself is thrown by the copy exactly when a raw
  address exceeds \<open>0xFFFFFF\<close>; every other failure of the copy is a
  \<^verbatim>\<open>RangeError\<close> of the \<^verbatim>\<open>DataView\<close>.
\<close>

theorem writeByte_OutOfBounds_iff:
  "writeByte mem src dest = Inl OutOfBounds \<longleftrightarrow> src > 0xFFFFFF \<or> dest > 0xFFFFFF"
proof (cases "src > 0xFFFFFF \<or> dest > 0xFFFFFF")
  case True
  then show ?thesis by (auto simp: writeByte_def)
next
  case False
  then have le: "src \<le> 0xFFFFFF" "dest \<le> 0xFFFFFF" by simp_all
  have "writeByte mem src dest \<noteq> Inl OutOfBounds"
  proof
    assume a: "writeByte mem src dest = Inl OutOfBounds"
    with le show False
      by (auto simp: writeByte_def split: sum.splits
          dest: readUint24_error getUint8_error setUint8_error)
  qed
  with False show ?thesis by simp
qed

theorem writeByte_OutOfBounds_iff_witness:
  "writeByte initial_mem 0x1000000 0 = Inl OutOfBounds \<and>
   writeByte initial_mem 0 0x1000000 = Inl OutOfBounds \<and>
   writeByte initial_mem 0 3 \<noteq> Inl OutOfBounds \<and>
   writeByte initial_mem (- 1) 3 = Inl RangeError"
proof -
  have "writeByte initial_mem (- 1) 3 = Inl RangeError"
    by (simp add: writeByte_def initial_mem_read readUint24_def getUint32_def in_view_def)
  with writeByte_OutOfBounds_iff[of initial_mem "0x1000000" 0]
    writeByte_OutOfBounds_iff[of initial_mem 0 "0x1000000"]
    writeByte_OutOfBounds_iff[of initial_mem 0 3]
  show ?thesis by simp
qed

text \<open>
  Claim C6. For all \<open>srcAddr\<close> and \<open>destAddr\<close> at most \<open>0xFFFFFF\<close>, the source's copy
  \<^verbatim>\<open>writeByte(srcAddr, destAddr)\<close> (the specification's \<open>copyByte\<close>) gives the same result,
  the same memory or the same exception, as reading
  \<open>b = readByte(readUint24(srcAddr))\<close> and then storing it with the single-byte
  \<open>writeByte(readUint24(destAddr), b)\<close> of the specification.
\<close>

theorem copyByte_equiv:
  assumes "srcAddr \<le> 0xFFFFFF" "destAddr \<le> 0xFFFFFF"
  shows "writeByte mem srcAddr destAddr = spec_copyByte mem srcAddr destAddr"
proof (cases "readUint24 mem srcAddr")
  case (Inl e)
  with assms have e: "e = RangeError" by (auto dest: readUint24_error)
  show ?thesis
  proof (cases "readUint24 mem destAddr")
    case l: (Inl e')
    with assms have "e' = RangeError" by (auto dest: readUint24_error)
    with Inl e l assms show ?thesis by (simp add: writeByte_def spec_copyByte_def)
  next
    case (Inr d)
    with Inl e assms show ?thesis by (simp add: writeByte_def spec_copyByte_def)
  qed
next
  case s: (Inr s)
  from readUint24_range[OF s] have sr: "\<not> s > 0xFFFFFF" by simp
  show ?thesis
  proof (cases "readUint24 mem destAddr")
    case (Inl e)
    with assms have e: "e = RangeError" by (auto dest: readUint24_error)
    show ?thesis
    proof (cases "getUint8 mem s")
      case l: (Inl e')
      then have "e' = RangeError" by (rule getUint8_error)
      with l s Inl e sr assms show ?thesis
        by (simp add: writeByte_def spec_copyByte_def readByte_def)
    next
      case (Inr b)
      with s Inl e sr assms show ?thesis
        by (simp add: writeByte_def spec_copyByte_def readByte_def)
    qed
  next
    case d: (Inr d)
    from readUint24_range[OF d] have dr: "\<not> d > 0xFFFFFF" by simp
    show ?thesis using s d sr dr assms
      by (simp add: writeByte_def spec_copyByte_def readByte_def spec_writeByte_def
          split: sum.splits)
  qed
qed

theorem copyByte_equiv_witness:
  "writeByte (transfer 0x1000008 [0, 0, 7, 0, 0, 9, 0, 0x2a]) 0 3 =
     spec_copyByte (transfer 0x1000008 [0, 0, 7, 0, 0, 9, 0, 0x2a]) 0 3 \<and>
   writeByte (transfer 0x1000008 [0, 0, 7, 0, 0, 9, 0, 0x2a]) 0 3 =
     Inr ((transfer 0x1000008 [0, 0, 7, 0, 0, 9, 0, 0x2a])[9 := 0x2a])"
proof -
  have "writeByte (transfer 0x1000008 [0, 0, 7, 0, 0, 9, 0, 0x2a]) 0 3 =
     Inr ((transfer 0x1000008 [0, 0, 7, 0, 0, 9, 0, 0x2a])[9 := 0x2a])"
    by (simp add: writeByte_def readUint24_def getUint32_def getUint8_def setUint8_def
        in_view_def length_transfer nth_transfer js_sar_def toInt32_def)
  then show ?thesis
    using copyByte_equiv[of 0 3 "transfer 0x1000008 [0, 0, 7, 0, 0, 9, 0, 0x2a]"] by simp
qed

text \<open>
  Claim C7. \<open>loadImage\<close> (the source's \<^verbatim>\<open>setMemory\<close>) throws the "too large" error exactly
  when the buffer is longer than \<open>0x1000008\<close> bytes, and throws nothing else; a buffer of
  at most \<open>0x1000008\<close> bytes replaces the memory by exactly \<open>0x1000008\<close> bytes: the
  buffer's bytes followed by zero bytes.
\<close>

theorem setMemory_capacity:
  "(setMemory buf = Inl ImageTooLarge \<longleftrightarrow> length buf > 0x1000008) \<and>
   (length buf \<le> 0x1000008 \<longrightarrow>
      (\<exists>mem. setMemory buf = Inr mem \<and> length mem = 0x1000008 \<and>
         take (length buf) mem = buf \<and>
         drop (length buf) mem = replicate (0x1000008 - length buf) 0)) \<and>
   (\<forall>e. setMemory buf = Inl e \<longrightarrow> e = ImageTooLarge)"
  by (auto simp: setMemory_def transfer_def)

theorem setMemory_capacity_witness:
  "(\<exists>mem. setMemory (replicate 0x1000008 1) = Inr mem \<and> length mem = 0x1000008) \<and>
   setMemory (replicate 0x1000009 1) = Inl ImageTooLarge \<and>
   (\<exists>mem. setMemory [1, 2, 3] = Inr mem \<and> length mem = 0x1000008 \<and>
      take 3 mem = [1, 2, 3] \<and> drop 3 mem = replicate 0x1000005 0)"
  using setMemory_capacity[of "replicate 0x1000008 1"]
    setMemory_capacity[of "replicate 0x1000009 1"] setMemory_capacity[of "[1, 2, 3]"]
  by (auto simp: numeral_3_eq_3)

section \<open>Properties of the instruction engine\<close>

lemma spec_cycles_add:
  "spec_cycles (m + n) s =
     (case spec_cycles m s of Inl x \<Rightarrow> Inl x | Inr s' \<Rightarrow> spec_cycles n s')"
  by (induction m arbitrary: s) (auto split: sum.splits)

lemma cpuLoop_for_cycles:
  "0 \<le> i \<Longrightarrow> i \<le> 65536 \<Longrightarrow>
   cpuLoop_for i pc mem =
     (case spec_cycles (nat (65536 - i)) (pc, mem) of
        Inl x \<Rightarrow> Inl x | Inr (pc', mem') \<Rightarrow> Inr mem')"
proof (induction i pc mem rule: cpuLoop_for.induct)
  case (1 i pc mem)
  show ?case
  proof (cases "i < 65536")
    case False
    with "1.prems" have "i = 65536" by simp
    then show ?thesis by (simp add: cpuLoop_for.simps)
  next
    case True
    then have n: "nat (65536 - i) = Suc (nat (65536 - (i + 1)))" by simp
    show ?thesis
    proof (cases "writeByte mem pc (pc + 3)")
      case (Inl e)
      with True show ?thesis
        by (subst cpuLoop_for.simps) (simp add: n spec_cycle_def del: nat_diff_distrib)
    next
      case w: (Inr mem')
      show ?thesis
      proof (cases "readUint24 mem' (pc + 6)")
        case (Inl e)
        with True w show ?thesis
          by (subst cpuLoop_for.simps) (simp add: n spec_cycle_def)
      next
        case (Inr pc')
        from True "1.prems" have "0 \<le> i + 1" "i + 1 \<le> 65536" by simp_all
        from "1.IH"[OF True w Inr this]
        show ?thesis using True w Inr
          by (subst cpuLoop_for.simps) (simp add: n spec_cycle_def)
      qed
    qed
  qed
qed

text \<open>
  The shape of a burst: \<open>pc\<close> starts as \<open>readUint24(0x000002)\<close>; each iteration is first
  the copy \<^verbatim>\<open>writeByte(pc, pc + 3)\<close> and then \<open>pc = readUint24(pc + 6)\<close>; a burst that
  returns has made exactly 65536 iterations and returns the memory alone, the final
  \<open>pc\<close> is dropped; a burst that throws stops at the iteration that throws.
\<close>

lemma cpuLoop_is_spec_engine: "cpuLoop mem = spec_engine mem"
  by (simp add: cpuLoop_def spec_engine_def cpuLoop_for_cycles split: sum.splits)

text \<open>The memory the object is constructed with is a program that loops on itself.\<close>

lemma initial_mem_cycle: "spec_cycle (0, initial_mem) = Inr (0, initial_mem)"
proof -
  have "initial_mem[0 := 0] = initial_mem"
    by (simp add: initial_mem_def list_eq_iff_nth_eq nth_list_update)
  then have "writeByte initial_mem 0 3 = Inr initial_mem"
    by (simp add: writeByte_def initial_mem_read getUint8_def setUint8_def in_view_def)
       (simp add: initial_mem_def mem_size_def)
  then show ?thesis by (simp add: spec_cycle_def initial_mem_read)
qed

lemma initial_mem_cycles: "spec_cycles n (0, initial_mem) = Inr (0, initial_mem)"
  by (induction n) (simp_all add: initial_mem_cycle)

lemma cpuLoop_initial_mem:
  "cpuLoop initial_mem = Inr initial_mem \<and> spec_engine initial_mem = Inr initial_mem"
proof -
  have "spec_engine initial_mem = Inr initial_mem"
    by (simp add: spec_engine_def initial_mem_read initial_mem_cycles)
  with cpuLoop_is_spec_engine[of initial_mem] show ?thesis by simp
qed

text \<open>
  Every exception of a burst is a \<^verbatim>\<open>RangeError\<close> of the \<^verbatim>\<open>DataView\<close>: \<open>pc\<close> is a
  result of \<^verbatim>\<open>readUint24\<close>, hence below \<open>2\<^sup>2\<^sup>3\<close>, so \<open>pc\<close>, \<open>pc + 3\<close> and \<open>pc + 6\<close> never
  exceed \<open>0xFFFFFF\<close> and the "Address out of bounds" guards never fire in a burst.
\<close>

lemma writeByte_error_kind:
  "src \<le> 0xFFFFFF \<Longrightarrow> dest \<le> 0xFFFFFF \<Longrightarrow> writeByte mem src dest = Inl e \<Longrightarrow>
   e = RangeError"
  by (auto simp: writeByte_def split: sum.splits
      dest: readUint24_error getUint8_error setUint8_error)

lemma cpuLoop_for_error_kind:
  "pc < 2 ^ 23 \<Longrightarrow> cpuLoop_for i pc mem = Inl (e, mem') \<Longrightarrow> e = RangeError"
proof (induction i pc mem rule: cpuLoop_for.induct)
  case (1 i pc mem)
  from "1.prems"(1) have pc: "pc \<le> 0xFFFFFF" "pc + 3 \<le> 0xFFFFFF" "pc + 6 \<le> 0xFFFFFF"
    by simp_all
  show ?case
  proof (cases "i < 65536")
    case False
    with "1.prems" show ?thesis by (simp add: cpuLoop_for.simps)
  next
    case True
    show ?thesis
    proof (cases "writeByte mem pc (pc + 3)")
      case (Inl e')
      with True "1.prems" have "e' = e" by (simp add: cpuLoop_for.simps)
      with Inl writeByte_error_kind[OF pc(1) pc(2), of mem e'] show ?thesis by simp
    next
      case w: (Inr m1)
      show ?thesis
      proof (cases "readUint24 m1 (pc + 6)")
        case (Inl e')
        with True w "1.prems" have "e' = e" by (simp add: cpuLoop_for.simps)
        with Inl readUint24_error[OF pc(3), of m1 e'] show ?thesis by simp
      next
        case (Inr pc')
        from readUint24_range[OF Inr] have p: "pc' < 2 ^ 23" by simp
        from True w Inr "1.prems" have "cpuLoop_for (i + 1) pc' m1 = Inl (e, mem')"
          by (simp add: cpuLoop_for.simps)
        from "1.IH"[OF True w Inr p this] show ?thesis .
      qed
    qed
  qed
qed

lemma cpuLoop_error_kind: "cpuLoop mem = Inl (e, mem') \<Longrightarrow> e = RangeError"
proof (cases "readUint24 mem 2")
  case (Inl e')
  assume "cpuLoop mem = Inl (e, mem')"
  with Inl have "e' = e" by (simp add: cpuLoop_def)
  with Inl readUint24_error[of 2 mem e'] show ?thesis by simp
next
  case (Inr pc)
  assume "cpuLoop mem = Inl (e, mem')"
  with Inr have "cpuLoop_for 0 pc mem = Inl (e, mem')" by (simp add: cpuLoop_def)
  moreover from readUint24_range[OF Inr] have "pc < 2 ^ 23" by simp
  ultimately show ?thesis by (rule cpuLoop_for_error_kind[rotated])
qed

text \<open>
  Claim C5. The claim: each invocation of the instruction engine performs exactly 65536
  iterations, each first \<open>copyByte(pc, pc + 3)\<close> and then \<open>pc = readUint24(pc + 6)\<close>, from
  \<open>pc = readUint24(0x000002)\<close>. In the source a burst stops in its first iteration as soon
  as \<^verbatim>\<open>readUint24\<close> returns a negative address. After loading the image \<open>00 00 80\<close> the
  program counter read from address 2 is \<open>-8388608\<close> and the first copy throws
  \<^verbatim>\<open>RangeError\<close>. On the machine as constructed, after the key \<open>f\<close> is pressed and the
  frame has written the keyboard word \<open>0x8000\<close> to address 0, the program counter is 0,
  the source address read at 0 is \<open>-8388608\<close>, and the first copy throws again. In both
  cases no iteration is completed and the memory is left as it was.
\<close>

theorem cpuLoop_aborts_in_first_iteration:
  "(case setMemory [0, 0, 0x80] of
      Inl e \<Rightarrow> Inl (e, [])
    | Inr mem \<Rightarrow> cpuLoop mem) = Inl (RangeError, transfer 0x1000008 [0, 0, 0x80]) \<and>
   keyState_after [KeyDown ''f''] = 0x8000 \<and>
   (case writeUint16 initial_mem 0 (keyState_after [KeyDown ''f'']) of
      Inl e \<Rightarrow> Inl (e, initial_mem)
    | Inr mem \<Rightarrow> cpuLoop mem) = Inl (RangeError, initial_mem[0 := 0x80])"
proof -
  let ?m = "transfer 0x1000008 [0, 0, 0x80]"
  have pc: "readUint24 ?m 2 = Inr (- 8388608)"
    by (simp add: readUint24_def getUint32_def in_view_def length_transfer nth_transfer
        js_sar_def toInt32_def)
  have "writeByte ?m (- 8388608) (- 8388608 + 3) = Inl RangeError"
    by (simp add: writeByte_def readUint24_def getUint32_def in_view_def)
  then have "cpuLoop_for 0 (- 8388608) ?m = Inl (RangeError, ?m)"
    by (subst cpuLoop_for.simps) simp
  with pc have a: "(case setMemory [0, 0, 0x80] of
      Inl e \<Rightarrow> Inl (e, [])
    | Inr mem \<Rightarrow> cpuLoop mem) = Inl (RangeError, ?m)"
    by (simp add: setMemory_def cpuLoop_def)
  have k: "keyState_after [KeyDown ''f''] = 0x8000"
    by (simp add: keyState_after_def keymap_def keymap_entries_def js_or_def toInt32_def)
  let ?k = "initial_mem[0 := 0x80]"
  have l: "length initial_mem = 16777224" by (simp add: initial_mem_def mem_size_def)
  have w: "writeUint16 initial_mem 0 0x8000 = Inr ?k"
  proof -
    have "initial_mem[0 := 0x80, 1 := 0] = ?k"
      by (simp add: list_eq_iff_nth_eq nth_list_update initial_mem_def mem_size_def)
    then show ?thesis by (simp add: writeUint16_def setUint16_def in_view_def l)
  qed
  have pc2: "readUint24 ?k 2 = Inr 0"
    by (simp add: readUint24_def getUint32_def in_view_def initial_mem_def mem_size_def
        js_sar_def toInt32_def)
  have d: "readUint24 ?k 3 = Inr 0"
    by (simp add: readUint24_def getUint32_def in_view_def initial_mem_def mem_size_def
        js_sar_def toInt32_def)
  have s: "readUint24 ?k 0 = Inr (- 8388608)"
    by (simp add: readUint24_def getUint32_def in_view_def initial_mem_def mem_size_def
        js_sar_def toInt32_def)
  have "writeByte ?k 0 (0 + 3) = Inl RangeError"
    using d s by (simp add: writeByte_def getUint8_def in_view_def)
  then have "cpuLoop_for 0 0 ?k = Inl (RangeError, ?k)"
    by (subst cpuLoop_for.simps) simp
  with pc2 have "cpuLoop ?k = Inl (RangeError, ?k)" by (simp add: cpuLoop_def)
  with w k a show ?thesis by simp
qed


lemma length_setUint8: "setUint8 mem a b = Inr mem' \<Longrightarrow> length mem' = length mem"
  by (auto simp: setUint8_def split: if_splits)

lemma length_setUint16: "setUint16 mem a v = Inr mem' \<Longrightarrow> length mem' = length mem"
  by (auto simp: setUint16_def split: if_splits)

lemma length_writeUint16: "writeUint16 mem a v = Inr mem' \<Longrightarrow> length mem' = length mem"
  by (auto simp: writeUint16_def length_setUint16 split: if_splits)

lemma length_writeByte: "writeByte mem s d = Inr mem' \<Longrightarrow> length mem' = length mem"
  by (auto simp: writeByte_def length_setUint8 split: if_splits sum.splits)

lemma length_cpuLoop_for:
  "(cpuLoop_for i pc mem = Inr mem' \<or> cpuLoop_for i pc mem = Inl (e, mem')) \<Longrightarrow>
   length mem' = length mem"
proof (induction i pc mem rule: cpuLoop_for.induct)
  case (1 i pc mem)
  show ?case
  proof (cases "i < 65536")
    case False
    with "1.prems" show ?thesis by (simp add: cpuLoop_for.simps)
  next
    case True
    show ?thesis
    proof (cases "writeByte mem pc (pc + 3)")
      case (Inl e')
      with True "1.prems" show ?thesis by (simp add: cpuLoop_for.simps)
    next
      case w: (Inr m1)
      then have l: "length m1 = length mem" by (rule length_writeByte)
      show ?thesis
      proof (cases "readUint24 m1 (pc + 6)")
        case (Inl e')
        with True w l "1.prems" show ?thesis by (auto simp: cpuLoop_for.simps)
      next
        case (Inr pc')
        with True w "1.prems"
        have "cpuLoop_for (i + 1) pc' m1 = Inr mem' \<or> cpuLoop_for (i + 1) pc' m1 = Inl (e, mem')"
          by (simp add: cpuLoop_for.simps)
        from "1.IH"[OF True w Inr this] l show ?thesis by simp
      qed
    qed
  qed
qed

lemma length_setMemory: "setMemory buf = Inr mem' \<Longrightarrow> length mem' = mem_size"
  by (auto simp: setMemory_def length_transfer mem_size_def split: if_splits)

lemma length_after_call: "length mem = mem_size \<Longrightarrow> length (after_call mem c) = mem_size"
proof (cases c)
  case (SetMemory buf)
  assume "length mem = mem_size"
  with SetMemory show ?thesis by (auto dest: length_setMemory split: sum.splits)
next
  case (WriteUint16 a v)
  assume "length mem = mem_size"
  with WriteUint16 show ?thesis by (auto dest: length_writeUint16 split: sum.splits)
next
  case (WriteByte a b)
  assume "length mem = mem_size"
  with WriteByte show ?thesis by (auto dest: length_writeByte split: sum.splits)
next
  case CpuLoop
  assume m: "length mem = mem_size"
  show ?thesis
  proof (cases "cpuLoop mem")
    case (Inl x)
    obtain e m' where x: "x = (e, m')" by (cases x)
    have "length m' = length mem"
    proof (cases "readUint24 mem 2")
      case l: (Inl e')
      with Inl x show ?thesis by (simp add: cpuLoop_def)
    next
      case (Inr pc)
      with Inl x have "cpuLoop_for 0 pc mem = Inl (e, m')" by (simp add: cpuLoop_def)
      then show ?thesis using length_cpuLoop_for by blast
    qed
    with Inl x m CpuLoop show ?thesis by simp
  next
    case (Inr m')
    have "length m' = length mem"
    proof (cases "readUint24 mem 2")
      case l: (Inl e')
      with Inr show ?thesis by (simp add: cpuLoop_def)
    next
      case r: (Inr pc)
      with Inr have "cpuLoop_for 0 pc mem = Inr m'" by (simp add: cpuLoop_def)
      then show ?thesis using length_cpuLoop_for by blast
    qed
    with Inr m CpuLoop show ?thesis by simp
  qed
qed

lemma length_foldl_after_call:
  "length mem = mem_size \<Longrightarrow> length (foldl after_call mem cs) = mem_size"
  by (induction cs arbitrary: mem) (simp_all add: length_after_call)

text \<open>
  Claim C9. The memory is \<open>0x1000008\<close> bytes long when the object is constructed, and
  after any sequence of calls of the methods that assign or store to it
  (\<^verbatim>\<open>setMemory\<close> with any buffer, \<^verbatim>\<open>writeUint16\<close>, \<^verbatim>\<open>writeByte\<close>, \<^verbatim>\<open>cpuLoop\<close>), whether
  they return or throw, it is still exactly \<open>0x1000008\<close> bytes long.
\<close>

theorem memory_length_invariant:
  "length initial_mem = 0x1000008 \<and> length (after_calls cs) = 0x1000008"
proof -
  have "length initial_mem = mem_size" by (simp add: initial_mem_def)
  then show ?thesis
    using length_foldl_after_call[of initial_mem cs]
    by (simp add: after_calls_def mem_size_def)
qed

theorem memory_length_invariant_witness:
  "length (after_calls [SetMemory [0x80], WriteUint16 0 0x8002, WriteByte 0 3, CpuLoop,
                        SetMemory (replicate 0x1000009 0)]) = 0x1000008"
  using memory_length_invariant[of "[SetMemory [0x80], WriteUint16 0 0x8002, WriteByte 0 3,
     CpuLoop, SetMemory (replicate 0x1000009 0)]"]
  by (rule conjunct2)

section \<open>Properties of the keyboard\<close>

lemma toInt32_id: "- (2 ^ 31) \<le> x \<Longrightarrow> x < 2 ^ 31 \<Longrightarrow> toInt32 x = x"
proof -
  assume a: "- (2 ^ 31) \<le> x" "x < 2 ^ 31"
  show ?thesis
  proof (cases "0 \<le> x")
    case True
    with a have "x mod 2 ^ 32 = x" by simp
    with a show ?thesis by (simp add: toInt32_def)
  next
    case False
    have "x mod 2 ^ 32 = (x + 2 ^ 32) mod 2 ^ 32" by simp
    also have "\<dots> = x + 2 ^ 32" using a False by (intro mod_pos_pos_trivial) auto
    finally have "x mod 2 ^ 32 = x + 2 ^ 32" .
    with a False show ?thesis by (simp add: toInt32_def)
  qed
qed

lemma keymap_Some:
  "keymap k = Some key \<Longrightarrow> key \<in> {0x2, 0x4, 0x8, 0x10, 0x20, 0x40, 0x80, 0x100, 0x200, 0x400, 0x800, 0x1000, 0x2000, 0x4000, 0x8000}"
  by (auto simp: keymap_def keymap_entries_def split: if_splits)

lemma key_down_inv:
  assumes "0 \<le> ks" "ks < 2 ^ 16" "even ks" "0 < key" "key < 2 ^ 16" "even key"
  shows "0 \<le> js_or ks key \<and> js_or ks key < 2 ^ 16 \<and> even (js_or ks key)"
proof -
  have "toInt32 ks = ks" "toInt32 key = key" using assms by (simp_all add: toInt32_id)
  then have e: "js_or ks key = ks OR key" by (simp add: js_or_def)
  have "ks OR key < 2 ^ 16" using assms by (intro OR_upper) simp_all
  with assms show ?thesis unfolding e by (simp add: even_or_iff)
qed

lemma key_up_inv:
  assumes "0 \<le> ks" "ks < 2 ^ 16" "even ks" "0 < key" "key < 2 ^ 16" "even key"
  shows "0 \<le> js_and ks (js_not key) \<and> js_and ks (js_not key) < 2 ^ 16
         \<and> even (js_and ks (js_not key))"
proof -
  have k: "toInt32 ks = ks" "toInt32 key = key" using assms by (simp_all add: toInt32_id)
  have "toInt32 (NOT key) = NOT key" using assms by (intro toInt32_id) (simp_all add: not_int_def)
  with k have e: "js_and ks (js_not key) = ks AND NOT key" by (simp add: js_and_def js_not_def)
  have "ks AND NOT key \<le> ks" using assms by (intro AND_upper1) simp
  with assms show ?thesis unfolding e by (simp add: even_and_iff)
qed

lemma key_listener_inv:
  assumes "0 \<le> ks" "ks < 2 ^ 16" "even ks"
  shows "0 \<le> key_listener ks ev \<and> key_listener ks ev < 2 ^ 16 \<and> even (key_listener ks ev)"
proof (cases ev)
  case (KeyDown k)
  show ?thesis
  proof (cases "keymap k")
    case None
    with KeyDown assms show ?thesis by simp
  next
    case (Some key)
    from keymap_Some[OF Some] have "0 < key \<and> key < 2 ^ 16 \<and> even key" by auto
    with key_down_inv[OF assms, of key] KeyDown Some show ?thesis by simp
  qed
next
  case (KeyUp k)
  show ?thesis
  proof (cases "keymap k")
    case None
    with KeyUp assms show ?thesis by simp
  next
    case (Some key)
    from keymap_Some[OF Some] have "0 < key \<and> key < 2 ^ 16 \<and> even key" by auto
    with key_up_inv[OF assms, of key] KeyUp Some show ?thesis by simp
  qed
qed

lemma foldl_key_listener_inv:
  "0 \<le> ks \<Longrightarrow> ks < 2 ^ 16 \<Longrightarrow> even ks \<Longrightarrow>
   0 \<le> foldl key_listener ks evs \<and> foldl key_listener ks evs < 2 ^ 16
   \<and> even (foldl key_listener ks evs)"
proof (induction evs arbitrary: ks)
  case Nil
  then show ?case by simp
next
  case (Cons ev evs)
  from key_listener_inv[OF Cons.prems, of ev] Cons.IH[of "key_listener ks ev"]
  show ?case by simp
qed

text \<open>
  Claim C10. The key map has exactly 15 keys, \<open>'1'\<close> to \<open>'9'\<close> and \<open>'a'\<close> to \<open>'f'\<close>, with the
  15 distinct one-bit masks \<open>2\<^sup>1\<close> to \<open>2\<^sup>1\<^sup>5\<close> (\<open>0x2\<close> to \<open>0x8000\<close>). From key state 0, after
  any sequence of key-down and key-up events the keyboard word is in \<open>[0, 2\<^sup>1\<^sup>6)\<close> and its
  least significant bit (mask \<open>0x1\<close>) is clear.
\<close>

theorem keyboard_word:
  "map fst keymap_entries = map (\<lambda>c. [c]) ''123456789abcdef'' \<and>
   length keymap_entries = 15 \<and>
   distinct (map fst keymap_entries) \<and>
   map snd keymap_entries = map (\<lambda>n. 2 ^ n) [1..<16] \<and>
   distinct (map snd keymap_entries) \<and>
   card (dom keymap) = 15 \<and>
   0 \<le> keyState_after evs \<and> keyState_after evs < 2 ^ 16 \<and>
   \<not> bit (keyState_after evs) 0 \<and> js_and (keyState_after evs) 0x1 = 0"
proof -
  have inv: "0 \<le> keyState_after evs \<and> keyState_after evs < 2 ^ 16 \<and> even (keyState_after evs)"
    unfolding keyState_after_def by (rule foldl_key_listener_inv) simp_all
  then have "toInt32 (keyState_after evs) = keyState_after evs" by (simp add: toInt32_id)
  moreover have "toInt32 1 = 1" by (simp add: toInt32_id)
  ultimately have "js_and (keyState_after evs) 0x1 = keyState_after evs AND 1"
    by (simp add: js_and_def)
  also have "\<dots> = 0" using inv by (simp add: and_one_eq)
  finally have a: "js_and (keyState_after evs) 0x1 = 0" .
  have u: "[1..<16] = [1,2,3,4,5,6,7,8,9,10,11,12,13,14,15]"
    by (simp add: upt_rec)
  have m: "map snd keymap_entries = map (\<lambda>n. 2 ^ n) [1..<16]"
    unfolding u by (simp add: keymap_entries_def)
  have d: "distinct (map snd keymap_entries)" by (simp add: keymap_entries_def)
  have f: "map fst keymap_entries = map (\<lambda>c. [c]) ''123456789abcdef''"
    by (simp add: keymap_entries_def)
  have df: "distinct (map fst keymap_entries)" by (simp add: keymap_entries_def)
  have l: "length keymap_entries = 15" by (simp add: keymap_entries_def)
  from inv have b: "\<not> bit (keyState_after evs) 0" by (simp add: bit_0)
  have "dom keymap = set (map fst keymap_entries)"
    by (simp add: keymap_def dom_map_of_conv_image_fst)
  with df l have c: "card (dom keymap) = 15" by (simp add: distinct_card del: set_map)
  from f l df m d c inv a b show ?thesis by blast
qed

theorem keyboard_word_witness:
  "keyState_after [KeyDown ''1'', KeyDown ''f'', KeyDown ''q'', KeyUp ''1'', KeyDown ''3''] = 0x8008
   \<and> \<not> bit (0x8008 :: int) 0"
proof -
  have "keyState_after [KeyDown ''1'', KeyDown ''f'', KeyDown ''q'', KeyUp ''1'', KeyDown ''3''] = 0x8008"
    by (simp add: keyState_after_def keymap_def keymap_entries_def js_or_def js_and_def js_not_def
        toInt32_def)
  with keyboard_word[of "[KeyDown ''1'', KeyDown ''f'', KeyDown ''q'', KeyUp ''1'', KeyDown ''3'']"]
  show ?thesis by simp
qed

section \<open>Properties of the frame scheduler\<close>

lemma rnd_near: "rounds_to_nearest rnd \<Longrightarrow> \<bar>rnd x - x\<bar> \<le> \<bar>x\<bar> / 2 ^ 53"
  by (simp add: rounds_to_nearest_def)

lemma rnd_bounds:
  assumes "rounds_to_nearest rnd" "0 \<le> x" "x \<le> b"
  shows "x - b / 9007199254740992 \<le> rnd x \<and> rnd x \<le> x + b / 9007199254740992"
proof -
  have "\<bar>rnd x - x\<bar> \<le> \<bar>x\<bar> / 2 ^ 53" using assms(1) by (rule rnd_near)
  also have "\<dots> \<le> b / 2 ^ 53" using assms by (intro divide_right_mono) simp_all
  finally have "\<bar>rnd x - x\<bar> \<le> b / 2 ^ 53" .
  moreover have "(2::real) ^ 53 = 9007199254740992" by simp
  ultimately have "\<bar>rnd x - x\<bar> \<le> b / 9007199254740992" by (simp only:)
  then show ?thesis by linarith
qed

lemma js_rem_once:
  assumes "0 < b" "b \<le> a" "a < 2 * b"
  shows "js_rem a b = a - b"
proof -
  from assms have q: "1 \<le> a / b" "a / b < 2" by (simp_all add: field_simps)
  then have "\<lfloor>a / b\<rfloor> = 1" by linarith
  with q show ?thesis by (simp add: js_rem_def)
qed

lemma rounds_to_nearest_double_rnd: "rounds_to_nearest double_rnd"
  by (simp add: rounds_to_nearest_def double_rnd_def)

text \<open>
  Claim C2, as the specification states it: fed the timestamps 0, 8, 16, 24, 33 from
  \<open>lastFrameTime = 0\<close>, a frame executes exactly at the ticks 16 and 33. In double
  arithmetic the frames are not those.
\<close>

theorem scheduler_example_counterexample:
  "snd (callbacks double_rnd 0 [0, 8, 16, 24, 33]) \<noteq> [False, False, True, False, True]"
  by (simp add: loop_def frameDuration_def fps_def js_rem_def double_rnd_def)

text \<open>
  Claim C2, amended. Fed the timestamps 0, 8, 16, 24, 33 from \<open>lastFrameTime = 0\<close>, a
  frame executes at the tick 24 and at no other tick: at 16 the delta is below
  \<open>frameDuration\<close>, and at 33 the delta from the stored time is below it again. After
  the tick at 33 the stored \<open>lastFrameTime\<close> is the one set at the tick 24,
  \<open>24 - (24 mod frameDuration)\<close>, which is \<open>1000 / 60\<close> up to rounding, not 33. This
  holds for every rounding of relative error at most \<open>2\<^sup>-\<^sup>5\<^sup>3\<close>.
\<close>

theorem scheduler_example:
  assumes r: "rounds_to_nearest rnd"
  shows "snd (callbacks rnd 0 [0, 8, 16, 24, 33]) = [False, False, False, True, False] \<and>
         fst (callbacks rnd 0 [0, 8, 16, 24, 33]) = rnd (24 - js_rem (rnd 24) (frameDuration rnd)) \<and>
         \<bar>fst (callbacks rnd 0 [0, 8, 16, 24, 33]) - 50 / 3\<bar> < 1 / 10 ^ 12 \<and>
         fst (callbacks rnd 0 [0, 8, 16, 24, 33]) \<noteq> 33"
proof -
  define fd where "fd = frameDuration rnd"
  have "fd = rnd (50 / 3)" by (simp add: fd_def frameDuration_def fps_def)
  with rnd_bounds[OF r, of "50 / 3" 17]
  have fd: "50 / 3 - 17 / 9007199254740992 \<le> fd" "fd \<le> 50 / 3 + 17 / 9007199254740992"
    by simp_all
  have r0: "rnd 0 = 0" using rnd_near[OF r, of 0] by simp
  have r8: "rnd 8 \<le> 8 + 8 / 9007199254740992" using rnd_bounds[OF r, of 8 8] by simp
  have r16: "rnd 16 \<le> 16 + 16 / 9007199254740992" using rnd_bounds[OF r, of 16 16] by simp
  have r24: "24 - 24 / 9007199254740992 \<le> rnd 24" "rnd 24 \<le> 24 + 24 / 9007199254740992"
    using rnd_bounds[OF r, of 24 24] by simp_all
  have t0: "loop rnd 0 0 = (0, False)"
    using fd r0 by (simp add: loop_def Let_def fd_def[symmetric])
  have "rnd 8 < fd" using fd r8 by linarith
  then have t8: "loop rnd 0 8 = (0, False)"
    by (simp add: loop_def Let_def fd_def[symmetric])
  have "rnd 16 < fd" using fd r16 by linarith
  then have t16: "loop rnd 0 16 = (0, False)"
    by (simp add: loop_def Let_def fd_def[symmetric])
  have rem: "js_rem (rnd 24) fd = rnd 24 - fd"
    using fd r24 by (intro js_rem_once) linarith+
  define y where "y = 24 - (rnd 24 - fd)"
  define l where "l = rnd y"
  have "fd \<le> rnd 24" using fd r24 by linarith
  then have t24: "loop rnd 0 24 = (l, True)"
    by (simp add: loop_def Let_def fd_def[symmetric] l_def y_def rem)
  have y: "0 \<le> y" "y \<le> 17" using fd r24 unfolding y_def by linarith+
  from rnd_bounds[OF r y]
  have l: "50 / 3 - 58 / 9007199254740992 \<le> l" "l \<le> 50 / 3 + 58 / 9007199254740992"
    using fd r24 unfolding l_def y_def by linarith+
  have d: "0 \<le> 33 - l" "33 - l \<le> 17" using l by linarith+
  from rnd_bounds[OF r d] have "rnd (33 - l) < fd" using l fd by linarith
  then have t33: "loop rnd l 33 = (l, False)"
    by (simp add: loop_def Let_def fd_def[symmetric])
  have c: "callbacks rnd 0 [0, 8, 16, 24, 33] = (l, [False, False, False, True, False])"
    by (simp add: t0 t8 t16 t24 t33)
  from l have "l - 50 / 3 < 1 / 1000000000000" "- (l - 50 / 3) < 1 / 1000000000000"
    by linarith+
  then have "\<bar>l - 50 / 3\<bar> < 1 / 1000000000000" by (simp only: abs_less_iff)
  then have b: "\<bar>l - 50 / 3\<bar> < 1 / 10 ^ 12" by simp
  have f: "rnd (24 - js_rem (rnd 24) (frameDuration rnd)) = l"
    by (simp add: l_def y_def rem fd_def[symmetric])
  from l have "l \<noteq> 33" by linarith
  with b show ?thesis unfolding c f by simp
qed

theorem scheduler_example_witness:
  "rounds_to_nearest double_rnd \<and>
   callbacks double_rnd 0 [0, 8, 16, 24, 33] =
     (4691249611844267 / 281474976710656, [False, False, False, True, False])"
proof -
  have "fst (callbacks double_rnd 0 [0, 8, 16, 24, 33]) = 4691249611844267 / 281474976710656"
    using scheduler_example[OF rounds_to_nearest_double_rnd]
    by (simp add: js_rem_def frameDuration_def fps_def double_rnd_def)
  with scheduler_example[OF rounds_to_nearest_double_rnd] rounds_to_nearest_double_rnd
  show ?thesis by (simp add: prod_eq_iff)
qed

section \<open>Properties of the palette\<close>

lemma setUint32_ok:
  "0 \<le> off \<Longrightarrow> nat off + 4 \<le> length view \<Longrightarrow>
   setUint32 view off v =
     Inr (view[nat off := word_of_int (v mod 2 ^ 32 div 2 ^ 24),
               nat off + 1 := word_of_int (v mod 2 ^ 24 div 2 ^ 16),
               nat off + 2 := word_of_int (v mod 2 ^ 16 div 2 ^ 8),
               nat off + 3 := word_of_int (v mod 2 ^ 8)])"
  by (simp add: setUint32_def in_view_def)

lemma toInt32_mod: "toInt32 x mod 2 ^ 32 = x mod 2 ^ 32"
proof -
  have "(x mod 2 ^ 32 - 2 ^ 32) mod 2 ^ 32 = x mod 2 ^ 32"
    by (metis mod_diff_right_eq mod_self diff_zero mod_mod_trivial)
  then show ?thesis by (simp add: toInt32_def Let_def)
qed

lemma js_or_mod: "js_or x y mod 2 ^ 32 = (x mod 2 ^ 32) OR (y mod 2 ^ 32)"
proof -
  have "js_or x y mod 2 ^ 32 = take_bit 32 (toInt32 x OR toInt32 y)"
    by (simp add: js_or_def take_bit_eq_mod)
  also have "\<dots> = take_bit 32 (toInt32 x) OR take_bit 32 (toInt32 y)" by simp
  also have "\<dots> = (x mod 2 ^ 32) OR (y mod 2 ^ 32)"
    by (simp only: take_bit_eq_mod toInt32_mod)
  finally show ?thesis .
qed

lemma js_shl_mod: "js_shl x n mod 2 ^ 32 = (x * 2 ^ (n mod 32)) mod 2 ^ 32"
proof -
  have "js_shl x n mod 2 ^ 32 = (toInt32 x * 2 ^ (n mod 32)) mod 2 ^ 32"
    by (simp only: js_shl_def toInt32_mod)
  also have "\<dots> = (toInt32 x mod 2 ^ 32 * 2 ^ (n mod 32)) mod 2 ^ 32"
    by (simp only: mod_mult_left_eq)
  also have "\<dots> = (x * 2 ^ (n mod 32)) mod 2 ^ 32"
    by (simp only: toInt32_mod mod_mult_left_eq)
  finally show ?thesis .
qed

lemma or_low_bits:
  fixes a x :: int
  assumes "0 \<le> a" "a < 2 ^ n"
  shows "x * 2 ^ n OR a = x * 2 ^ n + a"
proof -
  have "x * 2 ^ n OR a = concat_bit n a x"
    using assms by (simp add: concat_bit_def take_bit_int_eq_self push_bit_eq_mult or.commute)
  also have "\<dots> = a + x * 2 ^ n"
    using assms by (simp add: concat_bit_eq take_bit_int_eq_self push_bit_eq_mult)
  finally show ?thesis by simp
qed

lemma colour_word:
  fixes r g b :: int
  assumes "0 \<le> r" "r < 256" "0 \<le> g" "g < 256" "0 \<le> b" "b < 256"
  shows "js_or (js_or (js_or (js_shl r 24) (js_shl g 16)) (js_shl b 8)) 0xff mod 2 ^ 32 =
         r * 2 ^ 24 + g * 2 ^ 16 + b * 2 ^ 8 + 255"
proof -
  have 1: "r * 2 ^ 24 OR g * 2 ^ 16 = (r * 2 ^ 8 + g) * 2 ^ 16"
  proof -
    have "push_bit 16 (r * 2 ^ 8 OR g) = push_bit 16 (r * 2 ^ 8) OR push_bit 16 g"
      by (rule push_bit_or)
    also have "\<dots> = r * 2 ^ 24 OR g * 2 ^ 16" by (simp add: push_bit_eq_mult mult.commute)
    finally have "r * 2 ^ 24 OR g * 2 ^ 16 = push_bit 16 (r * 2 ^ 8 OR g)" by simp
    also have "r * 2 ^ 8 OR g = r * 2 ^ 8 + g" using assms by (intro or_low_bits) simp_all
    finally show ?thesis by (simp add: push_bit_eq_mult)
  qed
  have 2: "(r * 2 ^ 8 + g) * 2 ^ 16 OR b * 2 ^ 8 = ((r * 2 ^ 8 + g) * 2 ^ 8 + b) * 2 ^ 8"
  proof -
    have "push_bit 8 ((r * 2 ^ 8 + g) * 2 ^ 8 OR b) =
          push_bit 8 ((r * 2 ^ 8 + g) * 2 ^ 8) OR push_bit 8 b"
      by (rule push_bit_or)
    also have "\<dots> = (r * 2 ^ 8 + g) * 2 ^ 16 OR b * 2 ^ 8"
      by (simp add: push_bit_eq_mult mult.commute)
    finally have "(r * 2 ^ 8 + g) * 2 ^ 16 OR b * 2 ^ 8 =
                  push_bit 8 ((r * 2 ^ 8 + g) * 2 ^ 8 OR b)" by simp
    also have "(r * 2 ^ 8 + g) * 2 ^ 8 OR b = (r * 2 ^ 8 + g) * 2 ^ 8 + b"
      using assms by (intro or_low_bits) simp_all
    finally show ?thesis by (simp add: push_bit_eq_mult)
  qed
  have 3: "((r * 2 ^ 8 + g) * 2 ^ 8 + b) * 2 ^ 8 OR 255 = ((r * 2 ^ 8 + g) * 2 ^ 8 + b) * 2 ^ 8 + 255"
    by (intro or_low_bits) simp_all
  have "js_or (js_or (js_or (js_shl r 24) (js_shl g 16)) (js_shl b 8)) 0xff mod 2 ^ 32 =
        ((r * 2 ^ 24 OR g * 2 ^ 16) OR b * 2 ^ 8) OR 255"
    using assms by (simp only: js_or_mod js_shl_mod) simp
  also have "\<dots> = ((r * 2 ^ 8 + g) * 2 ^ 8 + b) * 2 ^ 8 + 255"
    by (simp only: 1 2 3)
  finally show ?thesis by simp
qed

lemma be32_bytes:
  fixes r g b a v :: int
  assumes "0 \<le> r" "r < 256" "0 \<le> g" "g < 256" "0 \<le> b" "b < 256" "0 \<le> a" "a < 256"
    and v: "v mod 2 ^ 32 = r * 2 ^ 24 + g * 2 ^ 16 + b * 2 ^ 8 + a"
  shows "v mod 2 ^ 32 div 2 ^ 24 = r" "v mod 2 ^ 24 div 2 ^ 16 = g"
    "v mod 2 ^ 16 div 2 ^ 8 = b" "v mod 2 ^ 8 = a"
proof -
  show "v mod 2 ^ 32 div 2 ^ 24 = r" unfolding v using assms by simp
  have "v mod 2 ^ 24 = (v mod 2 ^ 32) mod 2 ^ 24" by (simp add: mod_mod_cancel)
  also have "\<dots> = (2 ^ 24 * r + (g * 2 ^ 16 + b * 2 ^ 8 + a)) mod 2 ^ 24"
    unfolding v by (simp add: algebra_simps)
  also have "\<dots> = (g * 2 ^ 16 + b * 2 ^ 8 + a) mod 2 ^ 24" by (rule mod_mult_self4)
  also have "\<dots> = g * 2 ^ 16 + b * 2 ^ 8 + a" using assms by (intro mod_pos_pos_trivial) simp_all
  finally show "v mod 2 ^ 24 div 2 ^ 16 = g" using assms by simp
  have "v mod 2 ^ 16 = (v mod 2 ^ 32) mod 2 ^ 16" by (simp add: mod_mod_cancel)
  also have "\<dots> = (2 ^ 16 * (r * 2 ^ 8 + g) + (b * 2 ^ 8 + a)) mod 2 ^ 16"
    unfolding v by (simp add: algebra_simps)
  also have "\<dots> = (b * 2 ^ 8 + a) mod 2 ^ 16" by (rule mod_mult_self4)
  also have "\<dots> = b * 2 ^ 8 + a" using assms by (intro mod_pos_pos_trivial) simp_all
  finally show "v mod 2 ^ 16 div 2 ^ 8 = b" using assms by simp
  have "v mod 2 ^ 8 = (v mod 2 ^ 32) mod 2 ^ 8" by (simp add: mod_mod_cancel)
  also have "\<dots> = (2 ^ 8 * (r * 2 ^ 16 + g * 2 ^ 8 + b) + a) mod 2 ^ 8"
    unfolding v by (simp add: algebra_simps)
  also have "\<dots> = a mod 2 ^ 8" by (rule mod_mult_self4)
  also have "\<dots> = a" using assms by (intro mod_pos_pos_trivial) simp_all
  finally show "v mod 2 ^ 8 = a" .
qed

lemma web_safe_index:
  assumes "R < 6" "G < 6" "B < 6"
  shows "web_safe (36 * R + 6 * G + B) =
         [of_nat (0x33 * R), of_nat (0x33 * G), of_nat (0x33 * B), 0xff]"
proof -
  have "(36 * R + 6 * G + B) div 36 = R" using assms by simp
  moreover have "(36 * R + 6 * G + B) div 6 = 6 * R + G" using assms by simp
  moreover have "(6 * R + G) mod 6 = G" using assms by simp
  moreover have "(36 * R + 6 * G + B) mod 6 = B" using assms by presburger
  ultimately show ?thesis by (simp add: web_safe_def)
qed

lemma store_colour:
  assumes "R < 6" "G < 6" "B < 6" and len: "4 * (36 * R + 6 * G + B) + 4 \<le> length view"
  shows "\<exists>view'.
     setUint32 view (int (36 * R + 6 * G + B) * 4)
       (js_or (js_or (js_or (js_shl (0x33 * int R) 24) (js_shl (0x33 * int G) 16))
          (js_shl (0x33 * int B) 8)) 0xff) = Inr view' \<and>
     length view' = length view \<and>
     (\<forall>k<length view. view' ! k =
        (if 4 * (36 * R + 6 * G + B) \<le> k \<and> k < 4 * (36 * R + 6 * G + B) + 4
         then web_safe (k div 4) ! (k mod 4) else view ! k))"
proof -
  define I where "I = 36 * R + 6 * G + B"
  define v where "v = js_or (js_or (js_or (js_shl (0x33 * int R) 24) (js_shl (0x33 * int G) 16))
          (js_shl (0x33 * int B) 8)) 0xff"
  have b: "0 \<le> 0x33 * int R" "0x33 * int R < 256" "0 \<le> 0x33 * int G" "0x33 * int G < 256"
    "0 \<le> 0x33 * int B" "0x33 * int B < 256" using assms by simp_all
  have w: "v mod 2 ^ 32 = 0x33 * int R * 2 ^ 24 + 0x33 * int G * 2 ^ 16 + 0x33 * int B * 2 ^ 8 + 255"
    unfolding v_def by (rule colour_word[OF b])
  have a: "(0::int) \<le> 255" "(255::int) < 256" by simp_all
  note bytes = be32_bytes[OF b a w]
  define view' where "view' = view[4 * I := of_nat (0x33 * R), 4 * I + 1 := of_nat (0x33 * G),
     4 * I + 2 := of_nat (0x33 * B), 4 * I + 3 := (0xff :: byte)]"
  have n: "nat (int I * 4) = 4 * I" by (simp add: nat_mult_distrib)
  have "setUint32 view (int I * 4) v =
     Inr (view[nat (int I * 4) := word_of_int (v mod 2 ^ 32 div 2 ^ 24),
               nat (int I * 4) + 1 := word_of_int (v mod 2 ^ 24 div 2 ^ 16),
               nat (int I * 4) + 2 := word_of_int (v mod 2 ^ 16 div 2 ^ 8),
               nat (int I * 4) + 3 := word_of_int (v mod 2 ^ 8)])"
    using len unfolding I_def[symmetric] by (intro setUint32_ok) (simp_all add: n)
  then have s: "setUint32 view (int I * 4) v = Inr view'"
    unfolding bytes n by (simp add: view'_def)
  have l: "length view' = length view" by (simp add: view'_def)
  have ws: "web_safe I = [of_nat (0x33 * R), of_nat (0x33 * G), of_nat (0x33 * B), 0xff]"
    unfolding I_def by (rule web_safe_index[OF assms(1-3)])
  have c: "view' ! k = (if 4 * I \<le> k \<and> k < 4 * I + 4
         then web_safe (k div 4) ! (k mod 4) else view ! k)" if k: "k < length view" for k
  proof (cases "4 * I \<le> k \<and> k < 4 * I + 4")
    case False
    then show ?thesis by (auto simp: view'_def)
  next
    case True
    then obtain m where m: "k = 4 * I + m" "m < 4" by (metis add_less_cancel_left le_Suc_ex)
    then have d: "k div 4 = I" "k mod 4 = m" by simp_all
    from m have "m = 0 \<or> m = 1 \<or> m = 2 \<or> m = 3" by auto
    then have "view' ! k = web_safe I ! m"
      using k len m unfolding ws view'_def I_def[symmetric] by auto
    with True d show ?thesis by simp
  qed
  from s l c show ?thesis unfolding I_def v_def by blast
qed

lemma fill_compose:
  assumes "length v1 = length v0"
    and "\<forall>k<length v0. v1 ! k = (if a \<le> k \<and> k < b then F k else v0 ! k)"
    and "length v2 = length v1"
    and "\<forall>k<length v1. v2 ! k = (if b \<le> k \<and> k < c then F k else v1 ! k)"
    and "a \<le> b" "b \<le> c"
  shows "length v2 = length v0 \<and>
         (\<forall>k<length v0. v2 ! k = (if a \<le> k \<and> k < c then F k else v0 ! k))"
  using assms by auto

lemma palette_b_loop:
  assumes R: "R < 6" and G: "G < 6"
  shows "n \<le> 6 \<Longrightarrow> 4 * (36 * R + 6 * G + 6) \<le> length view \<Longrightarrow>
    \<exists>view'. palette_b (0x33 * int R) (0x33 * int G) (0x33 * int (6 - n))
               (int (36 * R + 6 * G + (6 - n)), view) = Inr (int (36 * R + 6 * G + 6), view') \<and>
      length view' = length view \<and>
      (\<forall>k<length view. view' ! k =
         (if 4 * (36 * R + 6 * G + (6 - n)) \<le> k \<and> k < 4 * (36 * R + 6 * G + 6)
          then web_safe (k div 4) ! (k mod 4) else view ! k))"
proof (induction n arbitrary: view)
  case 0
  then show ?case by (auto simp: palette_b.simps)
next
  case (Suc n)
  define B where "B = 6 - Suc n"
  from Suc.prems have B: "B < 6" and Bn: "B + 1 = 6 - n" and n: "n \<le> 6" by (simp_all add: B_def)
  define I where "I = 36 * R + 6 * G + B"
  from Suc.prems B have len: "4 * (36 * R + 6 * G + B) + 4 \<le> length view" by simp
  from store_colour[OF R G B len] obtain v1 where
    s: "setUint32 view (int I * 4)
       (js_or (js_or (js_or (js_shl (0x33 * int R) 24) (js_shl (0x33 * int G) 16))
          (js_shl (0x33 * int B) 8)) 0xff) = Inr v1"
    and l1: "length v1 = length view"
    and c1: "\<forall>k<length view. v1 ! k =
        (if 4 * I \<le> k \<and> k < 4 * I + 4 then web_safe (k div 4) ! (k mod 4) else view ! k)"
    unfolding I_def by blast
  from Suc.prems l1 have len1: "4 * (36 * R + 6 * G + 6) \<le> length v1" by simp
  from Suc.IH[OF n len1] obtain v2 where
    p: "palette_b (0x33 * int R) (0x33 * int G) (0x33 * int (6 - n))
          (int (36 * R + 6 * G + (6 - n)), v1) = Inr (int (36 * R + 6 * G + 6), v2)"
    and l2: "length v2 = length v1"
    and c2: "\<forall>k<length v1. v2 ! k =
         (if 4 * (36 * R + 6 * G + (6 - n)) \<le> k \<and> k < 4 * (36 * R + 6 * G + 6)
          then web_safe (k div 4) ! (k mod 4) else v1 ! k)"
    by blast
  have e1: "0x33 * int B + 0x33 = 0x33 * int (6 - n)" using Bn by (simp flip: Bn)
  have e2: "int I + 1 = int (36 * R + 6 * G + (6 - n))" using Bn by (simp add: I_def flip: Bn)
  have e3: "4 * I + 4 = 4 * (36 * R + 6 * G + (6 - n))" using Bn by (simp add: I_def flip: Bn)
  have run: "palette_b (0x33 * int R) (0x33 * int G) (0x33 * int B) (int I, view) =
             Inr (int (36 * R + 6 * G + 6), v2)"
    using B p by (subst palette_b.simps) (simp add: s e1 e2)
  have "4 * I \<le> 4 * I + 4" "4 * I + 4 \<le> 4 * (36 * R + 6 * G + 6)"
    using B by (simp_all add: I_def)
  from fill_compose[OF l1 c1 l2 c2[unfolded e3[symmetric]] this]
  have "length v2 = length view \<and>
     (\<forall>k<length view. v2 ! k =
        (if 4 * I \<le> k \<and> k < 4 * (36 * R + 6 * G + 6)
         then web_safe (k div 4) ! (k mod 4) else view ! k))" .
  with run show ?case unfolding I_def B_def by blast
qed

lemma palette_g_loop:
  assumes R: "R < 6"
  shows "n \<le> 6 \<Longrightarrow> 4 * (36 * R + 36) \<le> length view \<Longrightarrow>
    \<exists>view'. palette_g (0x33 * int R) (0x33 * int (6 - n))
               (int (36 * R + 6 * (6 - n)), view) = Inr (int (36 * R + 36), view') \<and>
      length view' = length view \<and>
      (\<forall>k<length view. view' ! k =
         (if 4 * (36 * R + 6 * (6 - n)) \<le> k \<and> k < 4 * (36 * R + 36)
          then web_safe (k div 4) ! (k mod 4) else view ! k))"
proof (induction n arbitrary: view)
  case 0
  then show ?case by (auto simp: palette_g.simps)
next
  case (Suc n)
  define G where "G = 6 - Suc n"
  from Suc.prems have G: "G < 6" and Gn: "G + 1 = 6 - n" and n: "n \<le> 6" by (simp_all add: G_def)
  from Suc.prems G have len: "4 * (36 * R + 6 * G + 6) \<le> length view" by simp
  from palette_b_loop[OF R G _ len, of 6] obtain v1 where
    b: "palette_b (0x33 * int R) (0x33 * int G) 0 (int (36 * R + 6 * G), view) =
          Inr (int (36 * R + 6 * G + 6), v1)"
    and l1: "length v1 = length view"
    and c1: "\<forall>k<length view. v1 ! k =
         (if 4 * (36 * R + 6 * G) \<le> k \<and> k < 4 * (36 * R + 6 * G + 6)
          then web_safe (k div 4) ! (k mod 4) else view ! k)"
    by auto
  from Suc.prems l1 have len1: "4 * (36 * R + 36) \<le> length v1" by simp
  from Suc.IH[OF n len1] obtain v2 where
    p: "palette_g (0x33 * int R) (0x33 * int (6 - n)) (int (36 * R + 6 * (6 - n)), v1) =
          Inr (int (36 * R + 36), v2)"
    and l2: "length v2 = length v1"
    and c2: "\<forall>k<length v1. v2 ! k =
         (if 4 * (36 * R + 6 * (6 - n)) \<le> k \<and> k < 4 * (36 * R + 36)
          then web_safe (k div 4) ! (k mod 4) else v1 ! k)"
    by blast
  have e1: "0x33 * int G + 0x33 = 0x33 * int (6 - n)" by (simp flip: Gn)
  have e2: "36 * R + 6 * G + 6 = 36 * R + 6 * (6 - n)" by (simp flip: Gn)
  have run: "palette_g (0x33 * int R) (0x33 * int G) (int (36 * R + 6 * G), view) =
             Inr (int (36 * R + 36), v2)"
    using G b p by (subst palette_g.simps) (simp add: e1 flip: e2)
  have "4 * (36 * R + 6 * G) \<le> 4 * (36 * R + 6 * G + 6)"
    "4 * (36 * R + 6 * G + 6) \<le> 4 * (36 * R + 36)"
    using G by simp_all
  from fill_compose[OF l1 c1 l2 c2[folded e2] this]
  have "length v2 = length view \<and>
     (\<forall>k<length view. v2 ! k =
        (if 4 * (36 * R + 6 * G) \<le> k \<and> k < 4 * (36 * R + 36)
         then web_safe (k div 4) ! (k mod 4) else view ! k))" .
  with run show ?case unfolding G_def by blast
qed

lemma palette_r_loop:
  "n \<le> 6 \<Longrightarrow> 864 \<le> length view \<Longrightarrow>
    \<exists>view'. palette_r (0x33 * int (6 - n)) (int (36 * (6 - n)), view) = Inr (216, view') \<and>
      length view' = length view \<and>
      (\<forall>k<length view. view' ! k =
         (if 4 * (36 * (6 - n)) \<le> k \<and> k < 864
          then web_safe (k div 4) ! (k mod 4) else view ! k))"
proof (induction n arbitrary: view)
  case 0
  then show ?case by (auto simp: palette_r.simps)
next
  case (Suc n)
  define R where "R = 6 - Suc n"
  from Suc.prems have R: "R < 6" and Rn: "R + 1 = 6 - n" and n: "n \<le> 6" by (simp_all add: R_def)
  from Suc.prems R have len: "4 * (36 * R + 36) \<le> length view" by simp
  from palette_g_loop[OF R _ len, of 6] obtain v1 where
    g: "palette_g (0x33 * int R) 0 (int (36 * R), view) = Inr (int (36 * R + 36), v1)"
    and l1: "length v1 = length view"
    and c1: "\<forall>k<length view. v1 ! k =
         (if 4 * (36 * R) \<le> k \<and> k < 4 * (36 * R + 36)
          then web_safe (k div 4) ! (k mod 4) else view ! k)"
    by auto
  from Suc.prems l1 have len1: "864 \<le> length v1" by simp
  from Suc.IH[OF n len1] obtain v2 where
    p: "palette_r (0x33 * int (6 - n)) (int (36 * (6 - n)), v1) = Inr (216, v2)"
    and l2: "length v2 = length v1"
    and c2: "\<forall>k<length v1. v2 ! k =
         (if 4 * (36 * (6 - n)) \<le> k \<and> k < 864
          then web_safe (k div 4) ! (k mod 4) else v1 ! k)"
    by blast
  have e1: "0x33 * int R + 0x33 = 0x33 * int (6 - n)" by (simp flip: Rn)
  have e2: "36 * R + 36 = 36 * (6 - n)" by (simp flip: Rn)
  have run: "palette_r (0x33 * int R) (int (36 * R), view) = Inr (216, v2)"
    using R g p by (subst palette_r.simps) (simp add: e1 flip: e2)
  have "4 * (36 * R) \<le> 4 * (36 * R + 36)" "4 * (36 * R + 36) \<le> 864"
    using R by simp_all
  from fill_compose[OF l1 c1 l2 c2[folded e2] this]
  have "length v2 = length view \<and>
     (\<forall>k<length view. v2 ! k =
        (if 4 * (36 * R) \<le> k \<and> k < 864
         then web_safe (k div 4) ! (k mod 4) else view ! k))" .
  with run show ?case unfolding R_def by blast
qed

lemma palette_black_loop:
  "n \<le> 20 \<Longrightarrow> length view = 1024 \<Longrightarrow>
    \<exists>view'. palette_black (int (256 - 2 * n)) view = Inr view' \<and>
      length view' = 1024 \<and>
      (\<forall>k<1024. view' ! k =
         (if 4 * (256 - 2 * n) \<le> k \<and> k mod 8 < 4
          then (if k mod 8 = 3 then 0xff else 0) else view ! k))"
proof (induction n arbitrary: view)
  case 0
  then show ?case by (auto simp: palette_black.simps)
next
  case (Suc n)
  define I where "I = 256 - 2 * Suc n"
  from Suc.prems have I: "I < 256" "even I" and In: "I + 2 = 256 - 2 * n" and n: "n \<le> 20"
    by (simp_all add: I_def)
  define v1 where "v1 = view[4 * I := 0, 4 * I + 1 := 0, 4 * I + 2 := 0, 4 * I + 3 := (0xff::byte)]"
  have nI: "nat (int I * 4) = 4 * I" by (simp add: nat_mult_distrib)
  have "setUint32 view (int I * 4) 0x000000ff =
     Inr (view[nat (int I * 4) := word_of_int (0x000000ff mod 2 ^ 32 div 2 ^ 24),
               nat (int I * 4) + 1 := word_of_int (0x000000ff mod 2 ^ 24 div 2 ^ 16),
               nat (int I * 4) + 2 := word_of_int (0x000000ff mod 2 ^ 16 div 2 ^ 8),
               nat (int I * 4) + 3 := word_of_int (0x000000ff mod 2 ^ 8)])"
    using Suc.prems I by (intro setUint32_ok) (simp_all add: nI)
  then have s: "setUint32 view (int I * 4) 0x000000ff = Inr v1"
    unfolding nI by (simp add: v1_def)
  have l1: "length v1 = 1024" using Suc.prems by (simp add: v1_def)
  from Suc.IH[OF n l1] obtain v2 where
    p: "palette_black (int (256 - 2 * n)) v1 = Inr v2"
    and l2: "length v2 = 1024"
    and c2: "\<forall>k<1024. v2 ! k =
         (if 4 * (256 - 2 * n) \<le> k \<and> k mod 8 < 4
          then (if k mod 8 = 3 then 0xff else 0) else v1 ! k)"
    by blast
  have e: "int I + 1 + 1 = int (256 - 2 * n)" by (simp flip: In)
  have run: "palette_black (int I) view = Inr v2"
    using I p by (subst palette_black.simps) (simp add: s e)
  have c: "v2 ! k = (if 4 * I \<le> k \<and> k mod 8 < 4
          then (if k mod 8 = 3 then 0xff else 0) else view ! k)" if k: "k < 1024" for k
  proof (cases "4 * I + 8 \<le> k")
    case True
    then have "v1 ! k = view ! k" by (simp add: v1_def)
    with True c2 k show ?thesis by (auto simp flip: In)
  next
    case False
    from I obtain J where J: "I = 2 * J" by (auto elim: evenE)
    show ?thesis
    proof (cases "4 * I \<le> k")
      case lo: False
      with False c2 k show ?thesis by (auto simp: v1_def simp flip: In)
    next
      case lo: True
      with False obtain m where m: "k = 4 * I + m" "m < 8"
        by (metis add_less_cancel_left le_Suc_ex not_le)
      then have km: "k mod 8 = m" by (simp add: J)
      from m False have "v2 ! k = v1 ! k" using c2 k by (auto simp flip: In)
      moreover have "v1 ! k = (if m < 4 then (if m = 3 then 0xff else 0) else view ! k)"
      proof -
        from m have "m = 0 \<or> m = 1 \<or> m = 2 \<or> m = 3 \<or> 4 \<le> m" by auto
        then show ?thesis using k m Suc.prems unfolding v1_def by auto
      qed
      ultimately show ?thesis using lo km by simp
    qed
  qed
  from run l2 c show ?case unfolding I_def by blast
qed

lemma initPalette_bytes:
  "\<exists>p. initPalette new_palette = Inr p \<and> length p = 1024 \<and>
     (\<forall>k<1024. p ! k =
        (if k < 864 then web_safe (k div 4) ! (k mod 4)
         else if k mod 8 = 3 then 0xff else 0))"
proof -
  have l0: "length new_palette = 1024" by (simp add: new_palette_def)
  from palette_r_loop[of 6 new_palette] l0 obtain v1 where
    r: "palette_r 0 (0, new_palette) = Inr (216, v1)"
    and l1: "length v1 = 1024"
    and c1: "\<forall>k<1024. v1 ! k =
         (if k < 864 then web_safe (k div 4) ! (k mod 4) else new_palette ! k)"
    by auto
  from palette_black_loop[of 20 v1] l1 obtain p where
    b: "palette_black 216 v1 = Inr p"
    and l2: "length p = 1024"
    and c2: "\<forall>k<1024. p ! k =
         (if 864 \<le> k \<and> k mod 8 < 4
          then (if k mod 8 = 3 then 0xff else 0) else v1 ! k)"
    by auto
  have i: "initPalette new_palette = Inr p" by (simp add: initPalette_def r b)
  have "p ! k = (if k < 864 then web_safe (k div 4) ! (k mod 4)
         else if k mod 8 = 3 then 0xff else 0)" if "k < 1024" for k
    using that c1 c2 by (auto simp: new_palette_def)
  with i l2 show ?thesis by blast
qed

text \<open>
  Claim C3. The claim: after \<^verbatim>\<open>initPalette\<close>, every entry \<open>i\<close> in \<open>[216, 255]\<close> is opaque black,
  RGBA \<open>0x000000FF\<close>. The second loop of the source increments \<open>i\<close> twice per iteration, so
  it stores only the even entries: entry 217 keeps the four zero bytes the array was
  created with, alpha 0 included.
\<close>

theorem palette_entry_217:
  "(case initPalette new_palette of Inl e \<Rightarrow> [] | Inr p \<Rightarrow> rgba p 217) = [0, 0, 0, 0]"
proof -
  from initPalette_bytes obtain p where
    i: "initPalette new_palette = Inr p"
    and c: "\<forall>k<1024. p ! k =
        (if k < 864 then web_safe (k div 4) ! (k mod 4)
         else if k mod 8 = 3 then 0xff else 0)"
    by blast
  have "p ! 868 = 0" "p ! 869 = 0" "p ! 870 = 0" "p ! 871 = 0" using c by simp_all
  with i show ?thesis by (simp add: rgba_def)
qed

text \<open>
  What \<^verbatim>\<open>initPalette\<close> does store: entries 0 to 215 are the web-safe cube, red major,
  then green, then blue, with full alpha; of the entries 216 to 255 the even ones are
  opaque black and the odd ones are left zero.
\<close>

theorem initPalette_entries:
  "\<exists>p. initPalette new_palette = Inr p \<and> length p = 1024 \<and>
     (\<forall>i<216. rgba p i = web_safe i) \<and>
     (\<forall>i. 216 \<le> i \<and> i < 256 \<longrightarrow>
        rgba p i = (if even i then [0, 0, 0, 0xff] else [0, 0, 0, 0]))"
proof -
  from initPalette_bytes obtain p where
    i: "initPalette new_palette = Inr p" and l: "length p = 1024"
    and c: "\<forall>k<1024. p ! k =
        (if k < 864 then web_safe (k div 4) ! (k mod 4)
         else if k mod 8 = 3 then 0xff else 0)"
    by blast
  have cube: "rgba p i = web_safe i" if "i < 216" for i
  proof -
    have "p ! (4 * i + m) = web_safe i ! m" if "m < 4" for m
    proof -
      from that \<open>i < 216\<close> have k: "4 * i + m < 1024" "4 * i + m < 864"
        "(4 * i + m) div 4 = i" "(4 * i + m) mod 4 = m" by simp_all
      from c k(1) have "p ! (4 * i + m) =
        (if 4 * i + m < 864 then web_safe ((4 * i + m) div 4) ! ((4 * i + m) mod 4)
         else if (4 * i + m) mod 8 = 3 then 0xff else 0)" by blast
      then show ?thesis by (simp only: k if_True)
    qed
    from this[of 0] this[of 1] this[of 2] this[of 3]
    show ?thesis by (simp add: rgba_def web_safe_def)
  qed
  have black: "rgba p i = (if even i then [0, 0, 0, 0xff] else [0, 0, 0, 0])"
    if "216 \<le> i \<and> i < 256" for i
  proof -
    have r: "\<not> 4 * i + m < 864 \<and> 4 * i + m < 1024" if "m < 4" for m
      using that \<open>216 \<le> i \<and> i < 256\<close> by simp
    show ?thesis
    proof (cases "even i")
      case True
      then obtain j where "i = 2 * j" by (auto elim: evenE)
      then have "(4 * i + m) mod 8 = m" if "m < 4" for m using that by simp
      with r c have "p ! (4 * i + m) = (if m = 3 then 0xff else 0)" if "m < 4" for m
        using that by simp
      from this[of 0] this[of 1] this[of 2] this[of 3] True
      show ?thesis by (simp add: rgba_def)
    next
      case False
      then obtain j where "i = 2 * j + 1" by (auto elim: oddE)
      then have "(4 * i + m) mod 8 = 4 + m" if "m < 4" for m using that by presburger
      with r c have "p ! (4 * i + m) = 0" if "m < 4" for m
        using that by simp
      from this[of 0] this[of 1] this[of 2] this[of 3] False
      show ?thesis by (simp add: rgba_def)
    qed
  qed
  from i l cube black show ?thesis by blast
qed

theorem initPalette_entries_witness:
  "\<exists>p. initPalette new_palette = Inr p \<and>
     rgba p 0 = [0, 0, 0, 0xff] \<and> rgba p 43 = [0x33, 0x33, 0x33, 0xff] \<and>
     rgba p 215 = [0xff, 0xff, 0xff, 0xff] \<and> rgba p 216 = [0, 0, 0, 0xff] \<and>
     rgba p 255 = [0, 0, 0, 0]"
proof -
  from initPalette_entries obtain p where
    i: "initPalette new_palette = Inr p"
    and c: "\<forall>i<216. rgba p i = web_safe i"
    and b: "\<forall>i. 216 \<le> i \<and> i < 256 \<longrightarrow>
        rgba p i = (if even i then [0, 0, 0, 0xff] else [0, 0, 0, 0])"
    by blast
  from c have "rgba p 0 = web_safe 0" "rgba p 43 = web_safe 43" "rgba p 215 = web_safe 215"
    by simp_all
  moreover from b have "rgba p 216 = [0, 0, 0, 0xff]" "rgba p 255 = [0, 0, 0, 0]" by simp_all
  ultimately show ?thesis using i by (simp add: web_safe_def)
qed

end
